theory Spec2Isabelle
  imports Main "HOL-Library.Word" "HOL-Library.AList" "HOL-Library.Multiset" "HOL-Library.Sublist"
begin

section \<open>Go values used by the scaler\<close>

text \<open>
  Go's \<open>int64\<close> (and \<open>time.Duration\<close>, which is an \<open>int64\<close> count of nanoseconds) is a
  64-bit word: \<open>+\<close>, \<open>-\<close> and \<open>*\<close> wrap, \<open>sint\<close> reads the signed value, and Go's
  \<open>a < b\<close> on \<open>int64\<close> is \<open>sint a < sint b\<close>.

  A \<open>time.Time\<close> is an instant, modelled as the (unbounded) number of nanoseconds on one
  time line. \<open>time.Time\<close> covers far more than 64 bits of nanoseconds, which is why
  \<open>Time.Sub\<close> saturates to the \<open>Duration\<close> range.
\<close>

type_synonym int64 = "64 word"

definition Before :: "int \<Rightarrow> int \<Rightarrow> bool" where
  "Before t u = (t < u)"

definition After :: "int \<Rightarrow> int \<Rightarrow> bool" where
  "After t u = (u < t)"

definition minDuration :: int where
  "minDuration = - (2 ^ 63)"

definition maxDuration :: int where
  "maxDuration = 2 ^ 63 - 1"

definition Sub :: "int \<Rightarrow> int \<Rightarrow> int" where
  \<comment> \<open>\<open>t.Sub(u)\<close>: the duration \<open>t - u\<close>, saturated to the range of \<open>Duration\<close>.\<close>
  "Sub t u = (if t - u > maxDuration then maxDuration
              else if t - u < minDuration then minDuration
              else t - u)"

definition AddDur :: "int \<Rightarrow> int64 \<Rightarrow> int" where
  \<comment> \<open>\<open>t.Add(d)\<close>\<close>
  "AddDur t d = t + sint d"

definition zeroTime :: int where
  \<comment> \<open>the zero \<open>time.Time\<close>, January 1 of year 1, in nanoseconds before the Unix epoch\<close>
  "zeroTime = - 62135596800000000000"

record LagSample =
  Timestamp :: int
  Topic :: string
  Partition :: int
  Lag :: int64
  Offset :: int64
  EndOffset :: int64

record EvaluationResult =
  Persistent :: bool
  TotalCurrentLag :: int64

text \<open>
  What the Go runtime and library decide and the source does not: the order in which a
  \<open>range\<close> over each of the two maps of the evaluator visits the entries, the permutation
  that \<open>sort.Slice\<close> produces (it is not stable), and the capacity that \<open>append\<close> gives
  a slice it has to move (\<open>growslice\<close>, from the old capacity and the needed length). They
  are parameters of the model; \<open>go_runtime_ok\<close> is what Go guarantees about the first three.
\<close>

record go_runtime =
  range_latest :: "(int \<times> LagSample) list \<Rightarrow> (int \<times> LagSample) list"
  range_groups :: "(int \<times> LagSample list) list \<Rightarrow> (int \<times> LagSample list) list"
  sort_Slice :: "LagSample list \<Rightarrow> LagSample list"
  growslice :: "nat \<Rightarrow> nat \<Rightarrow> nat"

definition go_runtime_ok :: "go_runtime \<Rightarrow> bool" where
  "go_runtime_ok rt =
     ((\<forall>al. mset (range_latest rt al) = mset al) \<and>
      (\<forall>al. mset (range_groups rt al) = mset al) \<and>
      (\<forall>xs. mset (sort_Slice rt xs) = mset xs \<and> sorted (map Timestamp (sort_Slice rt xs))))"

section \<open>The persistence evaluator\<close>

text \<open>The loop of \<open>hasPersistentLag\<close>, with its two variables \<open>stretchStart\<close> and \<open>inStretch\<close>.\<close>

fun hasPersistentLag_loop :: "int64 \<Rightarrow> int64 \<Rightarrow> int \<Rightarrow> bool \<Rightarrow> LagSample list \<Rightarrow> bool" where
  "hasPersistentLag_loop threshold sustainDuration stretchStart inStretch [] = False"
| "hasPersistentLag_loop threshold sustainDuration stretchStart inStretch (s # ss) =
     (if sint threshold \<le> sint (Lag s) then
        (let stretchStart' = (if \<not> inStretch then Timestamp s else stretchStart) in
         if sint sustainDuration \<le> Sub (Timestamp s) stretchStart' then True
         else hasPersistentLag_loop threshold sustainDuration stretchStart' True ss)
      else hasPersistentLag_loop threshold sustainDuration stretchStart False ss)"

definition hasPersistentLag :: "LagSample list \<Rightarrow> int64 \<Rightarrow> int64 \<Rightarrow> bool" where
  "hasPersistentLag samples threshold sustainDuration =
     (if length samples = 0 then False
      else hasPersistentLag_loop threshold sustainDuration zeroTime False samples)"

text \<open>
  The two maps of \<open>EvaluatePersistence\<close> are association lists with distinct keys
  (\<open>AList.update\<close> replaces the value of a key that is present and adds a new key otherwise).
  \<open>group_step\<close> is the body of the first loop.
\<close>

definition group_step ::
  "LagSample \<Rightarrow> (int \<times> LagSample list) list \<times> (int \<times> LagSample) list
     \<Rightarrow> (int \<times> LagSample list) list \<times> (int \<times> LagSample) list" where
  "group_step s maps =
     (case maps of (byPartition, latestByPartition) \<Rightarrow>
        (AList.update (Partition s)
           ((case map_of byPartition (Partition s) of None \<Rightarrow> [] | Some xs \<Rightarrow> xs) @ [s])
           byPartition,
         (case map_of latestByPartition (Partition s) of
            None \<Rightarrow> AList.update (Partition s) s latestByPartition
          | Some existing \<Rightarrow>
              if After (Timestamp s) (Timestamp existing)
              then AList.update (Partition s) s latestByPartition
              else latestByPartition)))"

definition group_samples ::
  "LagSample list \<Rightarrow> (int \<times> LagSample list) list \<times> (int \<times> LagSample) list" where
  "group_samples samples = fold group_step samples ([], [])"

definition sum_latest :: "(int \<times> LagSample) list \<Rightarrow> int64" where
  \<comment> \<open>the second loop, over the entries in the order the \<open>range\<close> visits them\<close>
  "sum_latest entries = fold (\<lambda>(p, s) totalCurrentLag. totalCurrentLag + Lag s) entries 0"

fun any_persistent ::
  "(LagSample list \<Rightarrow> LagSample list) \<Rightarrow> (int \<times> LagSample list) list \<Rightarrow> int64 \<Rightarrow> int64 \<Rightarrow> bool" where
  \<comment> \<open>the third loop, which breaks at the first persistent partition\<close>
  "any_persistent srt [] threshold sustainDuration = False"
| "any_persistent srt ((p, partSamples) # rest) threshold sustainDuration =
     (if hasPersistentLag (srt partSamples) threshold sustainDuration then True
      else any_persistent srt rest threshold sustainDuration)"

definition EvaluatePersistence ::
  "go_runtime \<Rightarrow> LagSample list \<Rightarrow> int64 \<Rightarrow> int64 \<Rightarrow> EvaluationResult" where
  "EvaluatePersistence rt samples threshold sustainDuration =
     (if length samples = 0 then \<lparr>Persistent = False, TotalCurrentLag = 0\<rparr>
      else
        (case group_samples samples of (byPartition, latestByPartition) \<Rightarrow>
           \<lparr>Persistent =
              any_persistent (sort_Slice rt) (range_groups rt byPartition) threshold sustainDuration,
            TotalCurrentLag = sum_latest (range_latest rt latestByPartition)\<rparr>))"

section \<open>Slices and their backing arrays\<close>

text \<open>
  A Go slice is a view (start, length, capacity) of a backing array, and two slices may share
  one. The store holds the backing arrays; an array is named by its position in the store,
  and an allocation adds an array at the end. The zero slice \<open>nil\<close> has length and capacity 0
  and is never read through.
\<close>

type_synonym store = "LagSample list list"

record slice =
  arr :: nat
  off :: nat
  len :: nat
  cap :: nat

definition nil_slice :: slice where
  "nil_slice = \<lparr>arr = 0, off = 0, len = 0, cap = 0\<rparr>"

definition zero_sample :: LagSample where
  "zero_sample = \<lparr>Timestamp = zeroTime, Topic = [], Partition = 0, Lag = 0, Offset = 0, EndOffset = 0\<rparr>"

definition elems :: "store \<Rightarrow> slice \<Rightarrow> LagSample list" where
  \<comment> \<open>the elements \<open>s[0], ..., s[len(s)-1]\<close>\<close>
  "elems h s = (if len s = 0 then [] else take (len s) (drop (off s) (h ! arr s)))"

definition index :: "store \<Rightarrow> slice \<Rightarrow> nat \<Rightarrow> LagSample" where
  \<comment> \<open>\<open>s[i]\<close>, read only where \<open>i < len(s)\<close>\<close>
  "index h s i = h ! arr s ! (off s + i)"

definition write_at :: "store \<Rightarrow> slice \<Rightarrow> nat \<Rightarrow> LagSample list \<Rightarrow> store" where
  \<comment> \<open>store \<open>xs\<close> into the backing array of \<open>s\<close> from position \<open>i\<close> of \<open>s\<close> on\<close>
  "write_at h s i xs =
     (if xs = [] then h
      else h[arr s := take (off s + i) (h ! arr s) @ xs @ drop (off s + i + length xs) (h ! arr s)])"

definition set_index :: "store \<Rightarrow> slice \<Rightarrow> nat \<Rightarrow> LagSample \<Rightarrow> store option" where
  \<comment> \<open>\<open>s[i] = v\<close>; out of range it panics (\<open>None\<close>)\<close>
  "set_index h s i v = (if i < len s then Some (write_at h s i [v]) else None)"

definition make_slice :: "store \<Rightarrow> nat \<Rightarrow> store \<times> slice" where
  \<comment> \<open>\<open>make([]LagSample, n)\<close>: a new array of \<open>n\<close> zero values\<close>
  "make_slice h n = (h @ [replicate n zero_sample], \<lparr>arr = length h, off = 0, len = n, cap = n\<rparr>)"

definition copy_slice :: "store \<Rightarrow> slice \<Rightarrow> slice \<Rightarrow> store" where
  \<comment> \<open>\<open>copy(dst, src)\<close> copies \<open>min(len(dst), len(src))\<close> elements\<close>
  "copy_slice h dst src = write_at h dst 0 (take (min (len dst) (len src)) (elems h src))"

definition append_slice :: "go_runtime \<Rightarrow> store \<Rightarrow> slice \<Rightarrow> LagSample list \<Rightarrow> store \<times> slice" where
  \<comment> \<open>\<open>append(s, xs...)\<close>: in place where the capacity suffices, into a new array otherwise\<close>
  "append_slice rt h s xs =
     (let needed = len s + length xs in
      if needed \<le> cap s then (write_at h s (len s) xs, s\<lparr>len := needed\<rparr>)
      else
        (let newcap = max needed (growslice rt (cap s) needed) in
         (h @ [elems h s @ xs @ replicate (newcap - needed) zero_sample],
          \<lparr>arr = length h, off = 0, len = needed, cap = newcap\<rparr>)))"

definition reslice_from :: "slice \<Rightarrow> nat \<Rightarrow> slice" where
  \<comment> \<open>\<open>s[i:]\<close>, used with \<open>i \<le> len(s)\<close>\<close>
  "reslice_from s i = s\<lparr>off := off s + i, len := len s - i, cap := cap s - i\<rparr>"

section \<open>The sliding window\<close>

text \<open>
  The window is its slice of samples and its duration. The mutex is not part of the model:
  each operation is one atomic step. The clock reading \<open>time.Now()\<close> inside \<open>evict\<close> is the
  argument \<open>now\<close>.
\<close>

record SlidingWindow =
  samples :: slice
  windowDuration :: int64

definition NewSlidingWindow :: "int64 \<Rightarrow> int64 \<Rightarrow> SlidingWindow" where
  "NewSlidingWindow windowSize samplingInterval =
     \<lparr>samples = nil_slice, windowDuration = windowSize * samplingInterval\<rparr>"

function evict_loop :: "store \<Rightarrow> slice \<Rightarrow> int \<Rightarrow> nat \<Rightarrow> nat" where
  "evict_loop h s cutoff i =
     (if i < len s \<and> Before (Timestamp (index h s i)) cutoff
      then evict_loop h s cutoff (i + 1) else i)"
  by pat_completeness auto
termination
  by (relation "measure (\<lambda>(h, s, cutoff, i). len s - i)") auto

definition evict :: "store \<Rightarrow> int \<Rightarrow> SlidingWindow \<Rightarrow> SlidingWindow" where
  "evict h now w =
     (let cutoff = AddDur now (- windowDuration w);
          i = evict_loop h (samples w) cutoff 0
      in if i > 0 then w\<lparr>samples := reslice_from (samples w) i\<rparr> else w)"

definition Add ::
  "go_runtime \<Rightarrow> int \<Rightarrow> LagSample list \<Rightarrow> store \<times> SlidingWindow \<Rightarrow> store \<times> SlidingWindow" where
  \<comment> \<open>\<open>w.Add(xs...)\<close>; \<open>xs\<close> are the values of the argument slice\<close>
  "Add rt now xs hw =
     (case hw of (h, w) \<Rightarrow>
        (case append_slice rt h (samples w) xs of
           (h', s') \<Rightarrow> (h', evict h' now (w\<lparr>samples := s'\<rparr>))))"

definition Snapshot :: "store \<Rightarrow> SlidingWindow \<Rightarrow> store \<times> slice" where
  "Snapshot h w =
     (case make_slice h (len (samples w)) of
        (h', out) \<Rightarrow> (copy_slice h' out (samples w), out))"

definition Len :: "SlidingWindow \<Rightarrow> nat" where
  "Len w = len (samples w)"

text \<open>A sequence of \<open>Add\<close> calls, each with its clock reading and its arguments.\<close>

fun adds ::
  "go_runtime \<Rightarrow> (int \<times> LagSample list) list \<Rightarrow> store \<times> SlidingWindow \<Rightarrow> store \<times> SlidingWindow" where
  "adds rt [] hw = hw"
| "adds rt ((now, xs) # calls) hw = adds rt calls (Add rt now xs hw)"

text \<open>
  A sequence of element assignments \<open>s[i] = v\<close> through a slice, as a caller makes them
  on a slice it holds.
\<close>

fun assign_elems :: "store \<Rightarrow> slice \<Rightarrow> (nat \<times> LagSample) list \<Rightarrow> store option" where
  "assign_elems h s [] = Some h"
| "assign_elems h s ((i, v) # ws) =
     (case set_index h s i v of None \<Rightarrow> None | Some h' \<Rightarrow> assign_elems h' s ws)"

text \<open>
  The invariant of the store and the window: a slice with capacity points into an allocated
  array and stays inside it. \<open>NewSlidingWindow\<close> establishes it and \<open>Add\<close> keeps it.
\<close>

definition valid_slice :: "store \<Rightarrow> slice \<Rightarrow> bool" where
  "valid_slice h s =
     (len s \<le> cap s \<and> (0 < cap s \<longrightarrow> arr s < length h \<and> off s + cap s \<le> length (h ! arr s)))"

definition valid_window :: "store \<Rightarrow> SlidingWindow \<Rightarrow> bool" where
  "valid_window h w = valid_slice h (samples w)"

section \<open>Errors\<close>

text \<open>
  Go errors as values: the two causes of a \<open>strconv.NumError\<close>, an error reported by the
  broker or the Kafka client, \<open>fmt.Errorf\<close> with a plain message, and \<open>fmt.Errorf\<close>
  wrapping a cause with \<open>%w\<close> (with the partition number where the format has \<open>%d\<close>).
\<close>

datatype error =
    ErrSyntax
  | ErrRange
  | BrokerError string
  | Errorf string
  | Wrapf string error
  | WrapPartitionf string int error

section \<open>Configuration\<close>

text \<open>
  \<open>strconv.ParseInt(s, 10, 64)\<close> as the Go library documents and implements it: an optional
  sign, then decimal digits only (no underscores in base 10), at least one; a magnitude
  beyond 64 bits or a value outside \<open>int64\<close> is a range error. \<open>strconv.Atoi(s)\<close> is
  \<open>ParseInt(s, 10, 0)\<close> converted to \<open>int\<close>, which has 64 bits on the platforms the
  scaler is built for.
\<close>

definition maxUint64 :: nat where
  "maxUint64 = 2 ^ 64 - 1"

fun ParseUint_loop :: "nat \<Rightarrow> string \<Rightarrow> error + nat" where
  "ParseUint_loop n [] = Inr n"
| "ParseUint_loop n (c # cs) =
     (if 48 \<le> (of_char c :: nat) \<and> (of_char c :: nat) \<le> 57 then
        (let d = (of_char c :: nat) - 48 in
         if n \<ge> maxUint64 div 10 + 1 then Inl ErrRange
         else if n * 10 + d > maxUint64 then Inl ErrRange
         else ParseUint_loop (n * 10 + d) cs)
      else Inl ErrSyntax)"

definition ParseUint :: "string \<Rightarrow> error + nat" where
  "ParseUint s = (if s = [] then Inl ErrSyntax else ParseUint_loop 0 s)"

definition ParseInt :: "string \<Rightarrow> error + int64" where
  "ParseInt s =
     (if s = [] then Inl ErrSyntax
      else
        (let neg = (hd s = CHR ''-'');
             s' = (if hd s = CHR ''+'' \<or> hd s = CHR ''-'' then tl s else s)
         in case ParseUint s' of
              Inl ErrSyntax \<Rightarrow> Inl ErrSyntax
            | r \<Rightarrow>
                (let un = (case r of Inr n \<Rightarrow> n | Inl e \<Rightarrow> maxUint64) in
                 if \<not> neg \<and> un \<ge> 2 ^ 63 then Inl ErrRange
                 else if neg \<and> un > 2 ^ 63 then Inl ErrRange
                 else Inr (if neg then - of_nat un else of_nat un))))"

definition Atoi :: "string \<Rightarrow> error + int64" where
  "Atoi s = ParseInt s"

text \<open>
  The process environment maps names to values; \<open>os.Getenv\<close> returns the empty string for
  a name that is not set. The metadata is a Go map, which may be \<open>nil\<close> (\<open>None\<close>); reading
  a key of a \<open>nil\<close> map finds nothing.
\<close>

type_synonym environ = "string \<rightharpoonup> string"

type_synonym metadata = "(string \<rightharpoonup> string) option"

definition Getenv :: "environ \<Rightarrow> string \<Rightarrow> string" where
  "Getenv env key = (case env key of None \<Rightarrow> [] | Some v \<Rightarrow> v)"

definition lookup :: "metadata \<Rightarrow> string \<Rightarrow> string option" where
  \<comment> \<open>\<open>v, ok := metadata[key]\<close>\<close>
  "lookup metadata key = (case metadata of None \<Rightarrow> None | Some m \<Rightarrow> m key)"

definition Second :: int64 where
  "Second = 1000000000"

record ScalerConfig =
  BootstrapServers :: string
  cfg_Topic :: string
  ConsumerGroup :: string
  LagThreshold :: int64
  SustainDuration :: int64
  SamplingInterval :: int64
  WindowSize :: int64

definition getMetadataOrEnv :: "metadata \<Rightarrow> environ \<Rightarrow> string \<Rightarrow> string \<Rightarrow> string \<Rightarrow> string" where
  "getMetadataOrEnv metadata env key envKey defaultVal =
     (case (case metadata of
              None \<Rightarrow> None
            | Some m \<Rightarrow> (case m key of Some v \<Rightarrow> if v \<noteq> [] then Some v else None | None \<Rightarrow> None)) of
        Some v \<Rightarrow> v
      | None \<Rightarrow> (let v = Getenv env envKey in if v \<noteq> [] then v else defaultVal))"

text \<open>
  The four numeric options of \<open>ParseFromMetadata\<close>, in the order of the source: a metadata
  entry, when the key is present, is parsed whatever its value; otherwise a non-empty
  environment variable is; otherwise the default stays.
\<close>

definition parse_lagThreshold :: "metadata \<Rightarrow> environ \<Rightarrow> ScalerConfig \<Rightarrow> error + ScalerConfig" where
  "parse_lagThreshold metadata env cfg =
     (case lookup metadata ''lagThreshold'' of
        Some v \<Rightarrow>
          (case ParseInt v of
             Inl err \<Rightarrow> Inl (Wrapf ''invalid lagThreshold'' err)
           | Inr n \<Rightarrow> Inr (cfg\<lparr>LagThreshold := n\<rparr>))
      | None \<Rightarrow>
          (let v = Getenv env ''LAG_THRESHOLD'' in
           if v \<noteq> [] then
             (case ParseInt v of
                Inl err \<Rightarrow> Inl (Wrapf ''invalid LAG_THRESHOLD'' err)
              | Inr n \<Rightarrow> Inr (cfg\<lparr>LagThreshold := n\<rparr>))
           else Inr cfg))"

definition parse_sustainSeconds :: "metadata \<Rightarrow> environ \<Rightarrow> ScalerConfig \<Rightarrow> error + ScalerConfig" where
  "parse_sustainSeconds metadata env cfg =
     (case lookup metadata ''sustainSeconds'' of
        Some v \<Rightarrow>
          (case ParseInt v of
             Inl err \<Rightarrow> Inl (Wrapf ''invalid sustainSeconds'' err)
           | Inr n \<Rightarrow> Inr (cfg\<lparr>SustainDuration := n * Second\<rparr>))
      | None \<Rightarrow>
          (let v = Getenv env ''SUSTAIN_SECONDS'' in
           if v \<noteq> [] then
             (case ParseInt v of
                Inl err \<Rightarrow> Inl (Wrapf ''invalid SUSTAIN_SECONDS'' err)
              | Inr n \<Rightarrow> Inr (cfg\<lparr>SustainDuration := n * Second\<rparr>))
           else Inr cfg))"

definition parse_samplingInterval :: "metadata \<Rightarrow> environ \<Rightarrow> ScalerConfig \<Rightarrow> error + ScalerConfig" where
  "parse_samplingInterval metadata env cfg =
     (case lookup metadata ''samplingInterval'' of
        Some v \<Rightarrow>
          (case ParseInt v of
             Inl err \<Rightarrow> Inl (Wrapf ''invalid samplingInterval'' err)
           | Inr n \<Rightarrow> Inr (cfg\<lparr>SamplingInterval := n * Second\<rparr>))
      | None \<Rightarrow>
          (let v = Getenv env ''SAMPLING_INTERVAL'' in
           if v \<noteq> [] then
             (case ParseInt v of
                Inl err \<Rightarrow> Inl (Wrapf ''invalid SAMPLING_INTERVAL'' err)
              | Inr n \<Rightarrow> Inr (cfg\<lparr>SamplingInterval := n * Second\<rparr>))
           else Inr cfg))"

definition parse_windowSize :: "metadata \<Rightarrow> environ \<Rightarrow> ScalerConfig \<Rightarrow> error + ScalerConfig" where
  "parse_windowSize metadata env cfg =
     (case lookup metadata ''windowSize'' of
        Some v \<Rightarrow>
          (case Atoi v of
             Inl err \<Rightarrow> Inl (Wrapf ''invalid windowSize'' err)
           | Inr n \<Rightarrow> Inr (cfg\<lparr>WindowSize := n\<rparr>))
      | None \<Rightarrow>
          (let v = Getenv env ''WINDOW_SIZE'' in
           if v \<noteq> [] then
             (case Atoi v of
                Inl err \<Rightarrow> Inl (Wrapf ''invalid WINDOW_SIZE'' err)
              | Inr n \<Rightarrow> Inr (cfg\<lparr>WindowSize := n\<rparr>))
           else Inr cfg))"

definition ParseFromMetadata :: "metadata \<Rightarrow> environ \<Rightarrow> error + ScalerConfig" where
  "ParseFromMetadata metadata env =
     (let cfg = \<lparr>BootstrapServers = getMetadataOrEnv metadata env ''bootstrapServers'' ''KAFKA_BROKERS'' ''localhost:9092'',
                 cfg_Topic = getMetadataOrEnv metadata env ''topic'' ''KAFKA_TOPIC'' [],
                 ConsumerGroup = getMetadataOrEnv metadata env ''consumerGroup'' ''KAFKA_GROUP_ID'' [],
                 LagThreshold = 500,
                 SustainDuration = 120 * Second,
                 SamplingInterval = 10 * Second,
                 WindowSize = 30\<rparr>
      in
      if cfg_Topic cfg = [] then Inl (Errorf ''topic is required'')
      else if ConsumerGroup cfg = [] then Inl (Errorf ''consumerGroup is required'')
      else
        (case parse_lagThreshold metadata env cfg of
           Inl err \<Rightarrow> Inl err
         | Inr cfg1 \<Rightarrow>
        (case parse_sustainSeconds metadata env cfg1 of
           Inl err \<Rightarrow> Inl err
         | Inr cfg2 \<Rightarrow>
        (case parse_samplingInterval metadata env cfg2 of
           Inl err \<Rightarrow> Inl err
         | Inr cfg3 \<Rightarrow> parse_windowSize metadata env cfg3))))"

definition ParseFromEnv :: "environ \<Rightarrow> error + ScalerConfig" where
  "ParseFromEnv env = ParseFromMetadata None env"

section \<open>The lag fetcher\<close>

text \<open>
  The replies of the Kafka client, with the fields \<open>FetchLag\<close> reads. The client is its
  address and, for each of the three requests, the reply it gives (an error or a response),
  as a function of what is asked.
\<close>

datatype addr =
    TCP string
  | TCPHostPort string int \<comment> \<open>\<open>kafka.TCP(fmt.Sprintf("%s:%d", host, port))\<close>\<close>

record Broker =
  Host :: string
  Port :: int

record TopicMetadata =
  Error :: "error option"
  Partitions :: "int list" \<comment> \<open>the \<open>ID\<close> of each partition\<close>

record MetadataResponse =
  Brokers :: "Broker list"
  Topics :: "TopicMetadata list"

record PartitionOffsets =
  po_Partition :: int
  LastOffset :: int64
  po_Error :: "error option"

record OffsetFetchPartition =
  ofp_Partition :: int
  CommittedOffset :: int64
  ofp_Error :: "error option"

record Client =
  Addr :: addr
  Metadata :: "string list \<Rightarrow> error + MetadataResponse"
  ListOffsets :: "(string \<times> (int \<times> int64) list) list \<Rightarrow> error + (string \<rightharpoonup> PartitionOffsets list)"
  OffsetFetch :: "addr \<Rightarrow> string \<Rightarrow> (string \<times> int list) list
                    \<Rightarrow> error + (string \<rightharpoonup> OffsetFetchPartition list)"

record LagFetcher =
  client :: Client
  topic :: string
  consumerGroup :: string

definition entries :: "(string \<rightharpoonup> 'a list) \<Rightarrow> string \<Rightarrow> 'a list" where
  \<comment> \<open>\<open>resp.Topics[name]\<close>: the empty slice for a missing name\<close>
  "entries m name = (case m name of None \<Rightarrow> [] | Some xs \<Rightarrow> xs)"

definition at :: "(int \<rightharpoonup> int64) \<Rightarrow> int \<Rightarrow> int64" where
  \<comment> \<open>\<open>m[p]\<close> on a \<open>map[int]int64\<close>: zero for a missing key\<close>
  "at m p = (case m p of None \<Rightarrow> 0 | Some v \<Rightarrow> v)"

definition request_per_topic :: "string \<Rightarrow> 'a list \<Rightarrow> (string \<times> 'a list) list" where
  \<comment> \<open>a request map filled by appending under the one key: no key at all without partitions\<close>
  "request_per_topic name xs = (if xs = [] then [] else [(name, xs)])"

text \<open>
  \<open>FetchLag\<close> in the order of the source: the partitions of the topic from the metadata,
  the end offsets (the request, then the loop over the reply), the committed offsets (the
  coordinator lookup and the request, then the loop over the reply), and the loop that
  derives one sample for each partition. Each step that fails ends the call with its error.
\<close>

definition discover_partitions :: "LagFetcher \<Rightarrow> error + int list" where
  "discover_partitions f =
     (case Metadata (client f) [topic f] of
        Inl err \<Rightarrow> Inl (Wrapf ''metadata request failed'' err)
      | Inr metaResp \<Rightarrow>
          if length (Topics metaResp) = 0
          then Inl (Errorf (''topic '' @ topic f @ '' not found''))
          else
            (let topicMeta = hd (Topics metaResp) in
             case Error topicMeta of
               Some e \<Rightarrow> Inl (Wrapf ''topic metadata error'' e)
             | None \<Rightarrow> Inr (Partitions topicMeta)))"

fun endOffsets_loop :: "(int \<rightharpoonup> int64) \<Rightarrow> PartitionOffsets list \<Rightarrow> error + (int \<rightharpoonup> int64)" where
  "endOffsets_loop endOffsets [] = Inr endOffsets"
| "endOffsets_loop endOffsets (po # rest) =
     (case po_Error po of
        Some e \<Rightarrow> Inl (WrapPartitionf ''offset error for partition'' (po_Partition po) e)
      | None \<Rightarrow> endOffsets_loop (endOffsets(po_Partition po \<mapsto> LastOffset po)) rest)"

definition list_offsets :: "LagFetcher \<Rightarrow> int list \<Rightarrow> error + (string \<rightharpoonup> PartitionOffsets list)" where
  "list_offsets f partitions =
     (case ListOffsets (client f) (request_per_topic (topic f) (map (\<lambda>p. (p, - 1)) partitions)) of
        Inl err \<Rightarrow> Inl (Wrapf ''list offsets failed'' err)
      | Inr listResp \<Rightarrow> Inr listResp)"

fun committedOffsets_loop ::
  "(int \<rightharpoonup> int64) \<Rightarrow> OffsetFetchPartition list \<Rightarrow> error + (int \<rightharpoonup> int64)" where
  "committedOffsets_loop committedOffsets [] = Inr committedOffsets"
| "committedOffsets_loop committedOffsets (po # rest) =
     (case ofp_Error po of
        Some e \<Rightarrow> Inl (WrapPartitionf ''committed offset error for partition'' (ofp_Partition po) e)
      | None \<Rightarrow>
          (let committed = CommittedOffset po;
               committed' = (if committed <s 0 then 0 else committed)
           in committedOffsets_loop (committedOffsets(ofp_Partition po \<mapsto> committed')) rest))"

definition offset_fetch :: "LagFetcher \<Rightarrow> int list \<Rightarrow> error + (string \<rightharpoonup> OffsetFetchPartition list)" where
  "offset_fetch f partitions =
     (case Metadata (client f) [] of
        Inl err \<Rightarrow> Inl (Wrapf ''coordinator lookup failed'' err)
      | Inr coordinator \<Rightarrow>
          (let coordinatorAddr =
                 (if length (Brokers coordinator) > 0
                  then TCPHostPort (Host (hd (Brokers coordinator))) (Port (hd (Brokers coordinator)))
                  else Addr (client f))
           in case OffsetFetch (client f) coordinatorAddr (consumerGroup f)
                     (request_per_topic (topic f) partitions) of
                Inl err \<Rightarrow> Inl (Wrapf ''offset fetch failed'' err)
              | Inr fetchResp \<Rightarrow> Inr fetchResp))"

definition lag_sample ::
  "int \<Rightarrow> string \<Rightarrow> (int \<rightharpoonup> int64) \<Rightarrow> (int \<rightharpoonup> int64) \<Rightarrow> int \<Rightarrow> LagSample" where
  \<comment> \<open>the body of the last loop\<close>
  "lag_sample now name endOffsets committedOffsets p =
     (let endOffset = at endOffsets p;
          committed = at committedOffsets p;
          lagValue = endOffset - committed;
          lagValue' = (if lagValue <s 0 then 0 else lagValue)
      in \<lparr>Timestamp = now, Topic = name, Partition = p, Lag = lagValue',
          Offset = committed, EndOffset = endOffset\<rparr>)"

definition FetchLag :: "LagFetcher \<Rightarrow> int \<Rightarrow> error + LagSample list" where
  \<comment> \<open>\<open>now\<close> is the clock reading taken at the start of the call\<close>
  "FetchLag f now =
     (case discover_partitions f of
        Inl err \<Rightarrow> Inl err
      | Inr partitions \<Rightarrow>
     (case list_offsets f partitions of
        Inl err \<Rightarrow> Inl err
      | Inr listResp \<Rightarrow>
     (case endOffsets_loop Map.empty (entries listResp (topic f)) of
        Inl err \<Rightarrow> Inl err
      | Inr endOffsets \<Rightarrow>
     (case offset_fetch f partitions of
        Inl err \<Rightarrow> Inl err
      | Inr fetchResp \<Rightarrow>
     (case committedOffsets_loop Map.empty (entries fetchResp (topic f)) of
        Inl err \<Rightarrow> Inl err
      | Inr committedOffsets \<Rightarrow>
          Inr (map (lag_sample now (topic f) endOffsets committedOffsets) partitions))))))"

section \<open>The scaler service\<close>

text \<open>
  The server holds its window and its configuration. The request arguments (the context,
  the scaled object reference, the metric request) are not read by the four operations and
  are left out; each operation returns its response and a \<open>nil\<close> error, so the result is
  always an \<open>Inr\<close>. The store is the one the window lives in at the time of the call.
\<close>

record IsActiveResponse =
  Result :: bool

record MetricSpec =
  spec_MetricName :: string
  TargetSize :: int64

record GetMetricSpecResponse =
  MetricSpecs :: "MetricSpec list"

record MetricValue =
  MetricName :: string
  MetricValue :: int64

record GetMetricsResponse =
  MetricValues :: "MetricValue list"

record ExternalScalerServer =
  window :: SlidingWindow
  config :: ScalerConfig

definition New :: "SlidingWindow \<Rightarrow> ScalerConfig \<Rightarrow> ExternalScalerServer" where
  "New w cfg = \<lparr>window = w, config = cfg\<rparr>"

definition evaluate :: "go_runtime \<Rightarrow> store \<Rightarrow> ExternalScalerServer \<Rightarrow> EvaluationResult" where
  "evaluate rt h srv =
     (case Snapshot h (window srv) of
        (h', snap) \<Rightarrow>
          EvaluatePersistence rt (elems h' snap) (LagThreshold (config srv)) (SustainDuration (config srv)))"

definition IsActive :: "go_runtime \<Rightarrow> store \<Rightarrow> ExternalScalerServer \<Rightarrow> error + IsActiveResponse" where
  "IsActive rt h srv =
     (let result = evaluate rt h srv in Inr \<lparr>Result = Persistent result\<rparr>)"

definition GetMetricSpec :: "ExternalScalerServer \<Rightarrow> error + GetMetricSpecResponse" where
  "GetMetricSpec srv =
     Inr \<lparr>MetricSpecs =
            [\<lparr>spec_MetricName = ''persistent_kafka_lag'', TargetSize = LagThreshold (config srv)\<rparr>]\<rparr>"

definition GetMetrics :: "go_runtime \<Rightarrow> store \<Rightarrow> ExternalScalerServer \<Rightarrow> error + GetMetricsResponse" where
  "GetMetrics rt h srv =
     (let result = evaluate rt h srv;
          metricValue = (if Persistent result then TotalCurrentLag result else 0)
      in Inr \<lparr>MetricValues =
                 [\<lparr>MetricName = ''persistent_kafka_lag'', MetricValue = metricValue\<rparr>]\<rparr>)"

section \<open>Notions of the specification, and examples\<close>

text \<open>
  The definitions of this section translate no function of the source. They say what the
  sentences of the specification speak of (a consecutive run, the latest sample of a
  partition, the age of a retained sample, the text given for an option), name two
  quantities the proofs follow through a loop, and give the values of the examples.
\<close>

text \<open>
  The non-empty consecutive runs of a sequence, and what the specification asks of a run:
  every sample at or above the threshold, and the last timestamp at least the sustain
  duration after the first.
\<close>

definition consecutive_runs :: "'a list \<Rightarrow> 'a list list" where
  "consecutive_runs xs = concat (map (\<lambda>ys. tl (prefixes ys)) (suffixes xs))"

definition qualifying_run :: "int64 \<Rightarrow> int64 \<Rightarrow> LagSample list \<Rightarrow> bool" where
  "qualifying_run t d run =
     ((\<forall>s\<in>set run. sint t \<le> sint (Lag s)) \<and>
      sint d \<le> Timestamp (last run) - Timestamp (hd run))"

definition has_qualifying_run :: "LagSample list \<Rightarrow> int64 \<Rightarrow> int64 \<Rightarrow> bool" where
  "has_qualifying_run xs t d = (\<exists>run\<in>set (consecutive_runs xs). qualifying_run t d run)"

text \<open>
  Two views of a qualifying run, used to follow the loop of \<open>hasPersistentLag\<close>: a run at the
  head of the list measured from a given start, and a run anywhere in the list.
\<close>

definition stretch_reaches :: "int64 \<Rightarrow> int64 \<Rightarrow> int \<Rightarrow> LagSample list \<Rightarrow> bool" where
  "stretch_reaches t d st ss =
     (\<exists>run suf. ss = run @ suf \<and> run \<noteq> [] \<and>
        (\<forall>s\<in>set run. sint t \<le> sint (Lag s)) \<and> sint d \<le> Timestamp (last run) - st)"

definition run_somewhere :: "int64 \<Rightarrow> int64 \<Rightarrow> LagSample list \<Rightarrow> bool" where
  "run_somewhere t d ss =
     (\<exists>pre run suf. ss = pre @ run @ suf \<and> run \<noteq> [] \<and> qualifying_run t d run)"

text \<open>Every retained sample is strictly younger than the window duration at time \<open>now\<close>.\<close>

definition within_window :: "int \<Rightarrow> store \<times> SlidingWindow \<Rightarrow> bool" where
  "within_window now hw =
     (case hw of (h, w) \<Rightarrow>
        (\<forall>s\<in>set (elems h (samples w)). now - Timestamp s < sint (windowDuration w)))"

text \<open>
  A sample for the examples, and one Go runtime for them: it visits one map in insertion
  order and the other in reverse, sorts by insertion (a stable sort), and doubles capacities.
\<close>

definition sample_at :: "int \<Rightarrow> int \<Rightarrow> int64 \<Rightarrow> LagSample" where
  "sample_at t p l = \<lparr>Timestamp = t, Topic = ''orders'', Partition = p, Lag = l, Offset = 0, EndOffset = l\<rparr>"

definition stable_runtime :: go_runtime where
  "stable_runtime =
     \<lparr>range_latest = (\<lambda>al. al), range_groups = rev, sort_Slice = sort_key Timestamp,
      growslice = (\<lambda>old needed. 2 * old)\<rparr>"

text \<open>A second runtime, which visits the two maps the other way round.\<close>

definition reverse_runtime :: go_runtime where
  "reverse_runtime =
     \<lparr>range_latest = rev, range_groups = (\<lambda>al. al), sort_Slice = sort_key Timestamp,
      growslice = (\<lambda>old needed. needed)\<rparr>"

text \<open>
  The tracked latest sample of a partition after one more sample \<open>s\<close> of that partition:
  it is replaced only when \<open>s\<close> is strictly later. \<open>first_latest\<close> is the first sample of a
  sequence, in its order, that carries the largest timestamp of the sequence, and
  \<open>latest_lag\<close> the lag of that sample among the samples of a partition.
\<close>

definition later :: "LagSample option \<Rightarrow> LagSample \<Rightarrow> LagSample option" where
  "later cur s =
     (case cur of
        None \<Rightarrow> Some s
      | Some existing \<Rightarrow> if Timestamp existing < Timestamp s then Some s else Some existing)"

definition first_latest :: "LagSample list \<Rightarrow> LagSample option" where
  "first_latest ys = find (\<lambda>x. \<forall>y\<in>set ys. Timestamp y \<le> Timestamp x) ys"

definition latest_lag :: "LagSample list \<Rightarrow> int \<Rightarrow> int64" where
  "latest_lag xs p =
     (case first_latest (filter (\<lambda>s. Partition s = p) xs) of None \<Rightarrow> 0 | Some s \<Rightarrow> Lag s)"

text \<open>A configuration for the examples: the defaults, for topic \<open>orders\<close>.\<close>

definition example_config :: ScalerConfig where
  "example_config =
     \<lparr>BootstrapServers = ''localhost:9092'', cfg_Topic = ''orders'', ConsumerGroup = ''workers'',
      LagThreshold = 500, SustainDuration = 120 * Second, SamplingInterval = 10 * Second,
      WindowSize = 30\<rparr>"

text \<open>
  A broker for the examples: topic \<open>orders\<close> with partitions 0, 1 and 2, end offsets 100, 50
  and 7, and committed offsets -1 (none committed), 20 and 9.
\<close>

definition example_client :: Client where
  "example_client =
     \<lparr>Addr = TCP ''localhost:9092'',
      Metadata = (\<lambda>names.
        Inr \<lparr>Brokers = [\<lparr>Host = ''localhost'', Port = 9092\<rparr>],
             Topics = [\<lparr>Error = None, Partitions = [0, 1, 2]\<rparr>]\<rparr>),
      ListOffsets = (\<lambda>req.
        Inr [''orders'' \<mapsto>
               [\<lparr>po_Partition = 0, LastOffset = 100, po_Error = None\<rparr>,
                \<lparr>po_Partition = 1, LastOffset = 50, po_Error = None\<rparr>,
                \<lparr>po_Partition = 2, LastOffset = 7, po_Error = None\<rparr>]]),
      OffsetFetch = (\<lambda>a g req.
        Inr [''orders'' \<mapsto>
               [\<lparr>ofp_Partition = 0, CommittedOffset = - 1, ofp_Error = None\<rparr>,
                \<lparr>ofp_Partition = 1, CommittedOffset = 20, ofp_Error = None\<rparr>,
                \<lparr>ofp_Partition = 2, CommittedOffset = 9, ofp_Error = None\<rparr>]])\<rparr>"

definition example_fetcher :: LagFetcher where
  "example_fetcher = \<lparr>client = example_client, topic = ''orders'', consumerGroup = ''workers''\<rparr>"

text \<open>
  For the configuration: the text that \<open>ParseFromMetadata\<close> parses for a numeric option
  (the metadata entry when the key is present, even empty; else the environment variable
  when it is not empty; else nothing, and the default stays), whether that text parses, and
  whether the metadata holds a non-empty value under a key.
\<close>

definition numeric_text :: "metadata \<Rightarrow> environ \<Rightarrow> string \<Rightarrow> string \<Rightarrow> string option" where
  "numeric_text metadata env key envKey =
     (case lookup metadata key of
        Some v \<Rightarrow> Some v
      | None \<Rightarrow> (let v = Getenv env envKey in if v \<noteq> [] then Some v else None))"

definition numeric_ok :: "metadata \<Rightarrow> environ \<Rightarrow> string \<Rightarrow> string \<Rightarrow> bool" where
  "numeric_ok metadata env key envKey =
     (case numeric_text metadata env key envKey of
        None \<Rightarrow> True
      | Some v \<Rightarrow> (case ParseInt v of Inl err \<Rightarrow> False | Inr n \<Rightarrow> True))"

definition nonempty_value :: "metadata \<Rightarrow> string \<Rightarrow> bool" where
  "nonempty_value metadata key =
     (case lookup metadata key of Some v \<Rightarrow> v \<noteq> [] | None \<Rightarrow> False)"

text \<open>The configuration after the three string options, with the numeric defaults.\<close>

definition string_options :: "metadata \<Rightarrow> environ \<Rightarrow> ScalerConfig" where
  "string_options metadata env =
     \<lparr>BootstrapServers = getMetadataOrEnv metadata env ''bootstrapServers'' ''KAFKA_BROKERS'' ''localhost:9092'',
      cfg_Topic = getMetadataOrEnv metadata env ''topic'' ''KAFKA_TOPIC'' [],
      ConsumerGroup = getMetadataOrEnv metadata env ''consumerGroup'' ''KAFKA_GROUP_ID'' [],
      LagThreshold = 500,
      SustainDuration = 120 * Second,
      SamplingInterval = 10 * Second,
      WindowSize = 30\<rparr>"

section \<open>Verification\<close>

subsection \<open>Persistence: the loop finds exactly the qualifying runs\<close>

lemma set_tl_prefixes: "set (tl (prefixes ys)) = {r. r \<noteq> [] \<and> prefix r ys}"
proof (cases ys)
  case Nil
  then show ?thesis by simp
next
  case (Cons a list)
  have "set (tl (prefixes ys)) = (#) a ` set (prefixes list)"
    using Cons by simp
  also have "\<dots> = {r. r \<noteq> [] \<and> prefix r ys}"
    unfolding Cons by (auto simp: prefix_Cons)
  finally show ?thesis .
qed

lemma set_consecutive_runs:
  "set (consecutive_runs xs) = {r. r \<noteq> [] \<and> (\<exists>pre suf. xs = pre @ r @ suf)}"
proof -
  have "set (consecutive_runs xs) = {r. r \<noteq> [] \<and> (\<exists>ys. suffix ys xs \<and> prefix r ys)}"
    by (auto simp: consecutive_runs_def set_tl_prefixes)
  also have "\<dots> = {r. r \<noteq> [] \<and> sublist r xs}"
    by (auto simp: sublist_altdef')
  finally show ?thesis by (simp add: sublist_def)
qed

lemma has_qualifying_run_iff:
  "has_qualifying_run xs t d \<longleftrightarrow>
     (\<exists>pre run suf. xs = pre @ run @ suf \<and> run \<noteq> [] \<and> qualifying_run t d run)"
  unfolding has_qualifying_run_def Bex_def set_consecutive_runs by blast

lemma Sub_nonneg: "u \<le> t \<Longrightarrow> (sint (d::int64) \<le> Sub t u) = (sint d \<le> t - u)"
  using sint_lt[of d] by (auto simp: Sub_def maxDuration_def minDuration_def)

lemma stretch_reaches_Nil: "\<not> stretch_reaches t d st []"
  by (simp add: stretch_reaches_def)

lemma stretch_reaches_Cons:
  "stretch_reaches t d st (s # ss) \<longleftrightarrow>
     sint t \<le> sint (Lag s) \<and> (sint d \<le> Timestamp s - st \<or> stretch_reaches t d st ss)"
proof
  assume "stretch_reaches t d st (s # ss)"
  then obtain run suf where r: "s # ss = run @ suf" "run \<noteq> []"
      "\<forall>x\<in>set run. sint t \<le> sint (Lag x)" "sint d \<le> Timestamp (last run) - st"
    unfolding stretch_reaches_def by blast
  from r(1,2) obtain run' where run: "run = s # run'" "ss = run' @ suf"
    by (cases run) auto
  show "sint t \<le> sint (Lag s) \<and> (sint d \<le> Timestamp s - st \<or> stretch_reaches t d st ss)"
  proof (cases "run' = []")
    case True
    with r run show ?thesis by simp
  next
    case False
    with r run have "stretch_reaches t d st ss"
      unfolding stretch_reaches_def by (intro exI[of _ run'] exI[of _ suf]) simp
    with r run show ?thesis by simp
  qed
next
  assume a: "sint t \<le> sint (Lag s) \<and> (sint d \<le> Timestamp s - st \<or> stretch_reaches t d st ss)"
  show "stretch_reaches t d st (s # ss)"
  proof (cases "sint d \<le> Timestamp s - st")
    case True
    with a show ?thesis
      unfolding stretch_reaches_def by (intro exI[of _ "[s]"] exI[of _ ss]) simp
  next
    case False
    with a obtain run suf where r: "ss = run @ suf" "run \<noteq> []"
      "\<forall>x\<in>set run. sint t \<le> sint (Lag x)" "sint d \<le> Timestamp (last run) - st"
      unfolding stretch_reaches_def by blast
    with a show ?thesis
      unfolding stretch_reaches_def by (intro exI[of _ "s # run"] exI[of _ suf]) simp
  qed
qed

lemma stretch_reaches_mono:
  "st \<le> st' \<Longrightarrow> stretch_reaches t d st' ss \<Longrightarrow> stretch_reaches t d st ss"
proof -
  assume le: "st \<le> st'" and "stretch_reaches t d st' ss"
  then obtain run suf where r: "ss = run @ suf" "run \<noteq> []"
      "\<forall>x\<in>set run. sint t \<le> sint (Lag x)" "sint d \<le> Timestamp (last run) - st'"
    unfolding stretch_reaches_def by blast
  from r(4) le have "sint d \<le> Timestamp (last run) - st" by linarith
  with r(1-3) show ?thesis
    unfolding stretch_reaches_def by blast
qed

lemma run_somewhere_Nil: "\<not> run_somewhere t d []"
  by (simp add: run_somewhere_def)

lemma run_somewhere_Cons:
  "run_somewhere t d (s # ss) \<longleftrightarrow>
     stretch_reaches t d (Timestamp s) (s # ss) \<or> run_somewhere t d ss"
proof
  assume "run_somewhere t d (s # ss)"
  then obtain pre run suf where r: "s # ss = pre @ run @ suf" "run \<noteq> []" "qualifying_run t d run"
    unfolding run_somewhere_def by blast
  show "stretch_reaches t d (Timestamp s) (s # ss) \<or> run_somewhere t d ss"
  proof (cases pre)
    case Nil
    with r have "hd run = s" by (cases run) auto
    with r Nil have "stretch_reaches t d (Timestamp s) (s # ss)"
      unfolding stretch_reaches_def qualifying_run_def
      by (intro exI[of _ run] exI[of _ suf]) simp
    then show ?thesis ..
  next
    case (Cons a pre')
    with r have "ss = pre' @ run @ suf" by simp
    with r have "run_somewhere t d ss" unfolding run_somewhere_def by blast
    then show ?thesis ..
  qed
next
  assume "stretch_reaches t d (Timestamp s) (s # ss) \<or> run_somewhere t d ss"
  then show "run_somewhere t d (s # ss)"
  proof
    assume "stretch_reaches t d (Timestamp s) (s # ss)"
    then obtain run suf where r: "s # ss = run @ suf" "run \<noteq> []"
      "\<forall>x\<in>set run. sint t \<le> sint (Lag x)" "sint d \<le> Timestamp (last run) - Timestamp s"
      unfolding stretch_reaches_def by blast
    then have "hd run = s" by (cases run) auto
    with r show ?thesis
      unfolding run_somewhere_def qualifying_run_def
      by (intro exI[of _ "[]"] exI[of _ run] exI[of _ suf]) simp
  next
    assume "run_somewhere t d ss"
    then obtain pre run suf where "ss = pre @ run @ suf" "run \<noteq> []" "qualifying_run t d run"
      unfolding run_somewhere_def by blast
    then show ?thesis
      unfolding run_somewhere_def
      by (intro exI[of _ "s # pre"] exI[of _ run] exI[of _ suf]) simp
  qed
qed

lemma loop_iff:
  assumes "sorted (map Timestamp ss)" and "inStretch \<longrightarrow> (\<forall>s\<in>set ss. st \<le> Timestamp s)"
  shows "hasPersistentLag_loop t d st inStretch ss \<longleftrightarrow>
     (inStretch \<and> stretch_reaches t d st ss) \<or> run_somewhere t d ss"
  using assms
proof (induction ss arbitrary: st inStretch)
  case Nil
  then show ?case by (simp add: stretch_reaches_Nil run_somewhere_Nil)
next
  case (Cons s ss)
  from Cons.prems have sorted: "sorted (map Timestamp ss)" and le: "\<forall>x\<in>set ss. Timestamp s \<le> Timestamp x"
    by auto
  show ?case
  proof (cases "sint t \<le> sint (Lag s)")
    case False
    then show ?thesis
      using Cons.IH[OF sorted, of False st]
      by (simp add: stretch_reaches_Cons run_somewhere_Cons)
  next
    case lag: True
    show ?thesis
    proof (cases inStretch)
      case True
      with Cons.prems have st: "st \<le> Timestamp s" "\<forall>x\<in>set ss. st \<le> Timestamp x" by auto
      show ?thesis
      proof (cases "sint d \<le> Timestamp s - st")
        case True
        with lag \<open>inStretch\<close> st show ?thesis
          by (simp add: Sub_nonneg stretch_reaches_Cons)
      next
        case False
        have "stretch_reaches t d (Timestamp s) ss \<Longrightarrow> stretch_reaches t d st ss"
          using st(1) by (rule stretch_reaches_mono)
        moreover have "\<not> sint d \<le> 0" using False st(1) by linarith
        ultimately show ?thesis
          using Cons.IH[OF sorted, of True st] lag \<open>inStretch\<close> st False
          by (auto simp: Sub_nonneg stretch_reaches_Cons run_somewhere_Cons)
      qed
    next
      case nin: False
      show ?thesis
      proof (cases "sint d \<le> 0")
        case True
        with lag nin show ?thesis
          by (simp add: Sub_nonneg stretch_reaches_Cons run_somewhere_Cons)
      next
        case False
        then show ?thesis
          using Cons.IH[OF sorted, of True "Timestamp s"] lag nin le
          by (auto simp: Sub_nonneg stretch_reaches_Cons run_somewhere_Cons)
      qed
    qed
  qed
qed

lemma hasPersistentLag_iff:
  assumes "sorted (map Timestamp xs)"
  shows "hasPersistentLag xs t d \<longleftrightarrow> has_qualifying_run xs t d"
proof (cases xs)
  case Nil
  then show ?thesis
    by (simp add: hasPersistentLag_def has_qualifying_run_iff)
next
  case (Cons a list)
  then show ?thesis
    using loop_iff[OF assms, of False zeroTime t d]
    by (simp add: hasPersistentLag_def has_qualifying_run_iff run_somewhere_def)
qed

lemma fst_group_step:
  "fst (group_step s m) =
     AList.update (Partition s)
       ((case map_of (fst m) (Partition s) of None \<Rightarrow> [] | Some xs \<Rightarrow> xs) @ [s]) (fst m)"
  by (simp add: group_step_def split: prod.splits)

lemma groups_map_of:
  "map_of (fst (fold group_step xs m)) p =
     (if filter (\<lambda>s. Partition s = p) xs = [] then map_of (fst m) p
      else Some ((case map_of (fst m) p of None \<Rightarrow> [] | Some ys \<Rightarrow> ys)
                  @ filter (\<lambda>s. Partition s = p) xs))"
proof (induction xs arbitrary: m)
  case Nil
  then show ?case by simp
next
  case (Cons x xs)
  show ?case
    by (simp add: Cons.IH fst_group_step update_conv' split: option.splits)
qed

lemma groups_distinct:
  "distinct (map fst (fst m)) \<Longrightarrow> distinct (map fst (fst (fold group_step xs m)))"
  by (induction xs arbitrary: m) (simp_all add: fst_group_step distinct_update)

lemma any_persistent_iff:
  "any_persistent srt al t d \<longleftrightarrow> (\<exists>(p, xs)\<in>set al. hasPersistentLag (srt xs) t d)"
  by (induction srt al t d rule: any_persistent.induct) auto

lemma groups_entries:
  "(p, xs) \<in> set (fst (group_samples inp)) \<longleftrightarrow>
     p \<in> Partition ` set inp \<and> xs = filter (\<lambda>s. Partition s = p) inp"
proof -
  let ?bp = "fst (group_samples inp)"
  let ?f = "filter (\<lambda>s. Partition s = p) inp"
  have d: "distinct (map fst ?bp)"
    unfolding group_samples_def by (rule groups_distinct) simp
  have m: "map_of ?bp p = (if ?f = [] then None else Some ?f)"
    unfolding group_samples_def groups_map_of by simp
  have e: "?f \<noteq> [] \<longleftrightarrow> p \<in> Partition ` set inp"
    by (auto simp: filter_empty_conv)
  have "(p, xs) \<in> set ?bp \<longleftrightarrow> map_of ?bp p = Some xs"
    using d by simp
  also have "\<dots> \<longleftrightarrow> ?f \<noteq> [] \<and> xs = ?f"
    unfolding m by auto
  finally show ?thesis unfolding e .
qed

lemma Persistent_iff:
  assumes "go_runtime_ok rt"
  shows "Persistent (EvaluatePersistence rt inp t d) \<longleftrightarrow>
           (\<exists>p\<in>Partition ` set inp.
              has_qualifying_run (sort_Slice rt (filter (\<lambda>s. Partition s = p) inp)) t d)"
proof (cases "inp = []")
  case True
  then show ?thesis by (simp add: EvaluatePersistence_def)
next
  case False
  obtain bp lp where g: "group_samples inp = (bp, lp)" by (cases "group_samples inp")
  from assms have "mset (range_groups rt bp) = mset bp"
    unfolding go_runtime_ok_def by blast
  then have set_eq: "set (range_groups rt bp) = set bp"
    by (rule mset_eq_setD)
  from assms have srt: "\<And>xs. sorted (map Timestamp (sort_Slice rt xs))"
    unfolding go_runtime_ok_def by blast
  have ent: "\<And>p xs. (p, xs) \<in> set bp \<longleftrightarrow>
     p \<in> Partition ` set inp \<and> xs = filter (\<lambda>s. Partition s = p) inp"
    using groups_entries[of _ _ inp] unfolding g by simp
  have "Persistent (EvaluatePersistence rt inp t d) \<longleftrightarrow>
          (\<exists>(p, xs)\<in>set bp. hasPersistentLag (sort_Slice rt xs) t d)"
    using False g by (simp add: EvaluatePersistence_def any_persistent_iff set_eq)
  also have "\<dots> \<longleftrightarrow> (\<exists>p xs. (p, xs) \<in> set bp \<and> has_qualifying_run (sort_Slice rt xs) t d)"
    by (auto simp: hasPersistentLag_iff[OF srt])
  also have "\<dots> \<longleftrightarrow> (\<exists>p\<in>Partition ` set inp.
              has_qualifying_run (sort_Slice rt (filter (\<lambda>s. Partition s = p) inp)) t d)"
    unfolding ent by blast
  finally show ?thesis .
qed

lemma sorted_perm_unique:
  assumes "mset ys = mset xs" and "sorted (map f ys)" and "distinct (map f xs)"
  shows "ys = sort_key f xs"
proof -
  have m: "mset (map f ys) = mset (map f xs)" using assms(1) by simp
  have d: "distinct (map f ys)"
    using assms(3) m by (metis mset_eq_imp_distinct_iff)
  have "map f ys = map f (sort_key f xs)"
  proof (rule sorted_distinct_set_unique)
    show "sorted (map f ys)" by (rule assms(2))
    show "distinct (map f ys)" by (rule d)
    show "sorted (map f (sort_key f xs))" by (rule sorted_sort_key)
    show "distinct (map f (sort_key f xs))" using assms(3) by (simp add: distinct_map)
    show "set (map f ys) = set (map f (sort_key f xs))"
      using m by (metis mset_eq_setD mset_map mset_sort)
  qed
  moreover have "inj_on f (set ys \<union> set (sort_key f xs))"
    using assms(1,3) by (simp add: distinct_map) (metis mset_eq_setD sup.idem)
  ultimately show ?thesis by (simp add: inj_on_map_eq_map)
qed

text \<open>
  Claim C1. For every list of samples, threshold \<open>t\<close> and sustain duration \<open>d\<close>, and
  whatever order the runtime visits the groups in and whatever timestamp-sorted permutation
  \<open>sort.Slice\<close> returns, \<open>EvaluatePersistence\<close> reports \<open>persistent = true\<close> if and only if
  the sorted samples of some partition contain a consecutive run in which every sample has
  \<open>lag \<ge> t\<close> and whose last timestamp minus its first is \<open>\<ge> d\<close>. A run that spans
  exactly \<open>d\<close> counts, a sample below the threshold ends a run, and the empty list has no
  partition, hence is not persistent. Where no partition has two samples with one
  timestamp, there is one sorted order, and it is the one meant.
\<close>

theorem EvaluatePersistence_persistent_iff:
  assumes "go_runtime_ok rt"
  shows "(Persistent (EvaluatePersistence rt inp t d) \<longleftrightarrow>
           (\<exists>p\<in>Partition ` set inp.
              has_qualifying_run (sort_Slice rt (filter (\<lambda>s. Partition s = p) inp)) t d)) \<and>
         ((\<forall>p\<in>Partition ` set inp. distinct (map Timestamp (filter (\<lambda>s. Partition s = p) inp))) \<longrightarrow>
           (Persistent (EvaluatePersistence rt inp t d) \<longleftrightarrow>
             (\<exists>p\<in>Partition ` set inp.
                has_qualifying_run (sort_key Timestamp (filter (\<lambda>s. Partition s = p) inp)) t d))) \<and>
         \<not> Persistent (EvaluatePersistence rt [] t d)"
proof -
  note 1 = Persistent_iff[OF assms, of inp t d]
  have 2: "(\<forall>p\<in>Partition ` set inp. distinct (map Timestamp (filter (\<lambda>s. Partition s = p) inp))) \<longrightarrow>
           (Persistent (EvaluatePersistence rt inp t d) \<longleftrightarrow>
             (\<exists>p\<in>Partition ` set inp.
                has_qualifying_run (sort_key Timestamp (filter (\<lambda>s. Partition s = p) inp)) t d))"
  proof
    assume dist: "\<forall>p\<in>Partition ` set inp. distinct (map Timestamp (filter (\<lambda>s. Partition s = p) inp))"
    have "sort_Slice rt (filter (\<lambda>s. Partition s = p) inp)
            = sort_key Timestamp (filter (\<lambda>s. Partition s = p) inp)"
      if "p \<in> Partition ` set inp" for p
    proof (rule sorted_perm_unique)
      show "mset (sort_Slice rt (filter (\<lambda>s. Partition s = p) inp)) = mset (filter (\<lambda>s. Partition s = p) inp)"
        using assms unfolding go_runtime_ok_def by blast
      show "sorted (map Timestamp (sort_Slice rt (filter (\<lambda>s. Partition s = p) inp)))"
        using assms unfolding go_runtime_ok_def by blast
      show "distinct (map Timestamp (filter (\<lambda>s. Partition s = p) inp))"
        using dist that by blast
    qed
    then show "Persistent (EvaluatePersistence rt inp t d) \<longleftrightarrow>
             (\<exists>p\<in>Partition ` set inp.
                has_qualifying_run (sort_key Timestamp (filter (\<lambda>s. Partition s = p) inp)) t d)"
      unfolding 1 by (intro bex_cong refl) simp
  qed
  have 3: "\<not> Persistent (EvaluatePersistence rt [] t d)"
    by (simp add: EvaluatePersistence_def)
  from 1 2 3 show ?thesis by (intro conjI)
qed

lemmas eval_defs = EvaluatePersistence_def group_samples_def group_step_def After_def sum_latest_def
  hasPersistentLag_def Sub_def maxDuration_def minDuration_def stable_runtime_def sample_at_def

theorem EvaluatePersistence_persistent_iff_witness:
  "go_runtime_ok stable_runtime \<and>
   Persistent (EvaluatePersistence stable_runtime
     [sample_at 120 0 500, sample_at 0 1 100, sample_at 0 0 500] 500 120) \<and>
   (\<exists>p\<in>Partition ` set [sample_at 120 0 500, sample_at 0 1 100, sample_at 0 0 500].
      has_qualifying_run (sort_Slice stable_runtime
        (filter (\<lambda>s. Partition s = p) [sample_at 120 0 500, sample_at 0 1 100, sample_at 0 0 500]))
        500 120) \<and>
   \<not> Persistent (EvaluatePersistence stable_runtime
     [sample_at 0 0 1000, sample_at 60 0 100, sample_at 120 0 1000] 500 120) \<and>
   \<not> (\<exists>p\<in>Partition ` set [sample_at 0 0 1000, sample_at 60 0 100, sample_at 120 0 1000].
      has_qualifying_run (sort_Slice stable_runtime
        (filter (\<lambda>s. Partition s = p) [sample_at 0 0 1000, sample_at 60 0 100, sample_at 120 0 1000]))
        500 120)"
proof -
  let ?a = "[sample_at 120 0 500, sample_at 0 1 100, sample_at 0 0 500]"
  let ?b = "[sample_at 0 0 1000, sample_at 60 0 100, sample_at 120 0 1000]"
  have ok: "go_runtime_ok stable_runtime"
    by (simp add: go_runtime_ok_def stable_runtime_def)
  have p: "Persistent (EvaluatePersistence stable_runtime ?a 500 120)"
    by (simp add: eval_defs)
  have q: "\<not> Persistent (EvaluatePersistence stable_runtime ?b 500 120)"
    by (simp add: eval_defs)
  show ?thesis
    using ok p q EvaluatePersistence_persistent_iff[OF ok, of ?a 500 120]
      EvaluatePersistence_persistent_iff[OF ok, of ?b 500 120]
    by blast
qed

subsection \<open>The window: slices, eviction and snapshots\<close>

lemma length_elems: "valid_slice h s \<Longrightarrow> length (elems h s) = len s"
  by (auto simp: valid_slice_def elems_def)

lemma index_elems: "valid_slice h s \<Longrightarrow> i < len s \<Longrightarrow> index h s i = elems h s ! i"
  by (auto simp: valid_slice_def elems_def index_def)

lemma evict_loop_eq:
  "valid_slice h s \<Longrightarrow> i \<le> len s \<Longrightarrow>
     evict_loop h s cutoff i = i + length (takeWhile (\<lambda>x. Timestamp x < cutoff) (drop i (elems h s)))"
proof (induction h s cutoff i rule: evict_loop.induct)
  case (1 h s cutoff i)
  note v = \<open>valid_slice h s\<close>
  show ?case
  proof (cases "i < len s")
    case False
    with 1(3) v show ?thesis
      by (subst evict_loop.simps) (simp add: length_elems)
  next
    case True
    then have d: "drop i (elems h s) = elems h s ! i # drop (Suc i) (elems h s)"
      using v by (simp add: Cons_nth_drop_Suc length_elems)
    show ?thesis
    proof (cases "Before (Timestamp (index h s i)) cutoff")
      case b: True
      with True 1(1) v have "evict_loop h s cutoff (i + 1) =
         i + 1 + length (takeWhile (\<lambda>x. Timestamp x < cutoff) (drop (i + 1) (elems h s)))"
        by simp
      with True b show ?thesis
        using v by (subst evict_loop.simps) (simp add: d index_elems Before_def)
    next
      case b: False
      with True show ?thesis
        using v by (subst evict_loop.simps) (simp add: d index_elems Before_def)
    qed
  qed
qed

lemma valid_reslice_from:
  "valid_slice h s \<Longrightarrow> i \<le> len s \<Longrightarrow> valid_slice h (reslice_from s i)"
  by (auto simp: valid_slice_def reslice_from_def)

lemma elems_reslice_from:
  "valid_slice h s \<Longrightarrow> i \<le> len s \<Longrightarrow> elems h (reslice_from s i) = drop i (elems h s)"
  by (auto simp: valid_slice_def reslice_from_def elems_def drop_take add.commute)

lemma evict_elems:
  assumes "valid_window h w"
  shows "elems h (samples (evict h now w)) =
           dropWhile (\<lambda>x. Timestamp x < AddDur now (- windowDuration w)) (elems h (samples w))"
    and "valid_window h (evict h now w)"
    and "windowDuration (evict h now w) = windowDuration w"
proof -
  define c where "c = AddDur now (- windowDuration w)"
  define i where "i = evict_loop h (samples w) c 0"
  define es where "es = elems h (samples w)"
  from assms have v: "valid_slice h (samples w)" by (simp add: valid_window_def)
  have i: "i = length (takeWhile (\<lambda>x. Timestamp x < c) es)"
    unfolding i_def es_def using evict_loop_eq[OF v, of 0 c] by simp
  have le: "i \<le> len (samples w)"
    unfolding i using length_takeWhile_le[of "\<lambda>x. Timestamp x < c" es] v
    by (simp add: length_elems es_def)
  have ev: "evict h now w = (if 0 < i then w\<lparr>samples := reslice_from (samples w) i\<rparr> else w)"
    by (simp add: evict_def Let_def i_def c_def)
  have dw: "dropWhile (\<lambda>x. Timestamp x < c) es = drop i es"
    unfolding i by (rule dropWhile_eq_drop)
  have "elems h (samples (evict h now w)) = drop i es"
  proof (cases "0 < i")
    case True
    then show ?thesis
      unfolding ev es_def using elems_reslice_from[OF v le] by simp
  next
    case False
    then show ?thesis unfolding ev es_def by simp
  qed
  then show "elems h (samples (evict h now w)) =
           dropWhile (\<lambda>x. Timestamp x < AddDur now (- windowDuration w)) (elems h (samples w))"
    using dw by (simp add: c_def es_def)
  show "valid_window h (evict h now w)"
    unfolding ev using valid_reslice_from[OF v le] v by (simp add: valid_window_def)
  show "windowDuration (evict h now w) = windowDuration w"
    unfolding ev by simp
qed

lemma elems_frame:
  assumes "valid_slice h s" and "length h \<le> length h'" and "\<forall>j<length h. h' ! j = h ! j"
  shows "elems h' s = elems h s" and "valid_slice h' s"
proof -
  show "elems h' s = elems h s"
  proof (cases "len s = 0")
    case True
    then show ?thesis by (simp add: elems_def)
  next
    case False
    with assms(1) have "arr s < length h" by (auto simp: valid_slice_def)
    with assms(3) show ?thesis by (simp add: elems_def)
  qed
  show "valid_slice h' s"
    using assms by (auto simp: valid_slice_def)
qed

lemma elems_alloc: "valid_slice h s \<Longrightarrow> elems (h @ [a]) s = elems h s"
  by (rule elems_frame(1)) (auto simp: nth_append)

lemma valid_alloc: "valid_slice h s \<Longrightarrow> valid_slice (h @ [a]) s"
  by (rule elems_frame(2)) (auto simp: nth_append)

lemma write_at_length: "length (write_at h s i xs) = length h"
  by (simp add: write_at_def)

lemma write_at_other: "j \<noteq> arr s \<Longrightarrow> write_at h s i xs ! j = h ! j"
  by (simp add: write_at_def)

lemma take_drop_splice:
  assumes "k + m \<le> length A"
  shows "take (m + length xs) (drop k (take (k + m) A @ xs @ r)) = take m (drop k A) @ xs"
proof -
  have 1: "drop k (take (k + m) A) = take m (drop k A)"
    by (simp add: drop_take)
  have 2: "length (take m (drop k A)) = m"
    using assms by simp
  have "drop k (take (k + m) A @ xs @ r) = take m (drop k A) @ xs @ r"
    using assms 1 by simp
  then show ?thesis using 2 by simp
qed

lemma append_slice_elems:
  assumes "valid_slice h s" and "append_slice rt h s xs = (h', s')"
  shows "elems h' s' = elems h s @ xs" and "valid_slice h' s'"
proof -
  let ?n = "len s + length xs"
  have "elems h' s' = elems h s @ xs \<and> valid_slice h' s'"
  proof (cases "?n \<le> cap s")
    case False
    then have h': "h' = h @ [elems h s @ xs @ replicate (max ?n (growslice rt (cap s) ?n) - ?n) zero_sample]"
      and s': "s' = \<lparr>arr = length h, off = 0, len = ?n, cap = max ?n (growslice rt (cap s) ?n)\<rparr>"
      using assms(2) by (auto simp: append_slice_def Let_def)
    from False have "0 < ?n" by (cases "?n") simp_all
    then show ?thesis
      unfolding h' s' using length_elems[OF assms(1)]
      by (simp add: elems_def valid_slice_def)
  next
    case True
    then have h': "h' = write_at h s (len s) xs" and s': "s' = s\<lparr>len := ?n\<rparr>"
      using assms(2) by (auto simp: append_slice_def Let_def)
    show ?thesis
    proof (cases "xs = []")
      case e: True
      then show ?thesis unfolding h' s' using assms(1) by (simp add: write_at_def)
    next
      case ne: False
      with True have c: "0 < cap s" by (cases xs) auto
      with assms(1) have a: "arr s < length h" "off s + cap s \<le> length (h ! arr s)" "len s \<le> cap s"
        by (auto simp: valid_slice_def)
      define A where "A = h ! arr s"
      have e: "elems h s = take (len s) (drop (off s) A)"
        by (simp add: elems_def A_def)
      have new: "h' ! arr s = take (off s + len s) A @ xs @ drop (off s + len s + length xs) A"
        unfolding h' using ne a(1) by (simp add: write_at_def A_def)
      have l: "off s + len s \<le> length A" using a by (simp add: A_def)
      have "take ?n (drop (off s) (h' ! arr s)) = take (len s) (drop (off s) A) @ xs"
        unfolding new using l by (rule take_drop_splice)
      moreover have "length (h' ! arr s) = length A"
        unfolding new using a True by (simp add: A_def)
      moreover have "length h' = length h" unfolding h' by (rule write_at_length)
      ultimately show ?thesis
        unfolding s' using a True ne e by (simp add: elems_def valid_slice_def A_def)
    qed
  qed
  then show "elems h' s' = elems h s @ xs" and "valid_slice h' s'" by simp_all
qed

lemma Add_elems:
  assumes "valid_window h w" and "Add rt now xs (h, w) = (h', w')"
  shows "elems h' (samples w') =
           dropWhile (\<lambda>x. Timestamp x < AddDur now (- windowDuration w)) (elems h (samples w) @ xs)"
    and "valid_window h' w'"
    and "windowDuration w' = windowDuration w"
proof -
  obtain h1 s1 where a: "append_slice rt h (samples w) xs = (h1, s1)"
    by (cases "append_slice rt h (samples w) xs")
  from assms(1) have v: "valid_slice h (samples w)" by (simp add: valid_window_def)
  note ap = append_slice_elems[OF v a]
  define w1 where "w1 = w\<lparr>samples := s1\<rparr>"
  have v1: "valid_window h1 w1" using ap(2) by (simp add: valid_window_def w1_def)
  have r: "h' = h1" "w' = evict h1 now w1"
    using assms(2) a by (auto simp: Add_def w1_def)
  show "elems h' (samples w') =
           dropWhile (\<lambda>x. Timestamp x < AddDur now (- windowDuration w)) (elems h (samples w) @ xs)"
    unfolding r using evict_elems(1)[OF v1, of now] ap(1) by (simp add: w1_def)
  show "valid_window h' w'"
    unfolding r by (rule evict_elems(2)[OF v1])
  show "windowDuration w' = windowDuration w"
    unfolding r using evict_elems(3)[OF v1, of now] by (simp add: w1_def)
qed

lemma AddDur_neg:
  assumes "- (2 ^ 63) < sint (d :: int64)"
  shows "AddDur now (- d) = now - sint d"
proof -
  have "sint d < 2 ^ 63" using sint_lt[of d] by simp
  with assms have "signed_take_bit 63 (- sint d) = - sint d"
    by (intro signed_take_bit_int_eq_self) simp_all
  then show ?thesis by (simp add: AddDur_def sint_word_minus)
qed

lemma NewSlidingWindow_valid: "valid_window h (NewSlidingWindow n i)"
  by (simp add: valid_window_def valid_slice_def NewSlidingWindow_def nil_slice_def)

lemma Snapshot_eq:
  assumes "valid_window h w"
  shows "Snapshot h w =
    (h @ [elems h (samples w)],
     \<lparr>arr = length h, off = 0, len = len (samples w), cap = len (samples w)\<rparr>)"
proof -
  from assms have v: "valid_slice h (samples w)" by (simp add: valid_window_def)
  define n where "n = len (samples w)"
  define out where "out = \<lparr>arr = length h, off = 0, len = n, cap = n\<rparr>"
  define h1 where "h1 = h @ [replicate n zero_sample]"
  have e1: "elems h1 (samples w) = elems h (samples w)"
    unfolding h1_def by (rule elems_alloc[OF v])
  have l: "length (elems h (samples w)) = n"
    using length_elems[OF v] by (simp add: n_def)
  have "copy_slice h1 out (samples w) = write_at h1 out 0 (elems h (samples w))"
    using l by (simp add: copy_slice_def out_def e1 n_def)
  also have "\<dots> = h @ [elems h (samples w)]"
    using l by (cases "elems h (samples w) = []") (auto simp: write_at_def out_def h1_def)
  finally show ?thesis
    by (simp add: Snapshot_def make_slice_def n_def out_def h1_def)
qed

lemma assign_elems_frame:
  "assign_elems h s ws = Some h' \<Longrightarrow>
     length h' = length h \<and> (\<forall>j. j \<noteq> arr s \<longrightarrow> h' ! j = h ! j)"
proof (induction ws arbitrary: h)
  case Nil
  then show ?case by simp
next
  case (Cons a ws)
  obtain i v where a: "a = (i, v)" by (cases a)
  from Cons.prems a obtain h1 where 1: "set_index h s i v = Some h1" and 2: "assign_elems h1 s ws = Some h'"
    by (auto split: option.splits)
  from 1 have "h1 = write_at h s i [v]" by (auto simp: set_index_def split: if_splits)
  then have "length h1 = length h \<and> (\<forall>j. j \<noteq> arr s \<longrightarrow> h1 ! j = h ! j)"
    by (simp add: write_at_length write_at_other)
  with Cons.IH[OF 2] show ?case by simp
qed

lemma adds_valid:
  "valid_window h w \<Longrightarrow> adds rt calls (h, w) = (h', w') \<Longrightarrow>
     valid_window h' w' \<and> windowDuration w' = windowDuration w"
proof (induction calls arbitrary: h w)
  case Nil
  then show ?case by simp
next
  case (Cons c calls)
  obtain now xs where c: "c = (now, xs)" by (cases c)
  obtain h1 w1 where a: "Add rt now xs (h, w) = (h1, w1)" by (cases "Add rt now xs (h, w)")
  from Add_elems(2,3)[OF Cons.prems(1) a] have v1: "valid_window h1 w1"
    and d1: "windowDuration w1 = windowDuration w" by simp_all
  from Cons.prems(2) have "adds rt calls (h1, w1) = (h', w')" by (simp add: c a)
  from Cons.IH[OF v1 this] d1 show ?case by simp
qed

lemma adds_from_new_valid:
  "adds rt calls (h, NewSlidingWindow n i) = (h', w') \<Longrightarrow>
     valid_window h' w' \<and> windowDuration w' = n * i"
  using adds_valid[OF NewSlidingWindow_valid, of rt calls h n i h' w']
  by (simp add: NewSlidingWindow_def)

text \<open>
  Claim C8. \<open>Snapshot\<close> returns the window's elements in an array of its own: after any
  sequence of element assignments through the returned slice, the window holds the same
  elements, a later \<open>Snapshot\<close> returns the same elements, and \<open>Len\<close> is their number.
\<close>

theorem Snapshot_independent:
  assumes "valid_window h w" and "Snapshot h w = (h1, snap)" and "assign_elems h1 snap ws = Some h2"
  shows "elems h1 snap = elems h (samples w) \<and>
         elems h2 (samples w) = elems h (samples w) \<and>
         elems (fst (Snapshot h2 w)) (snd (Snapshot h2 w)) = elems h (samples w) \<and>
         Len w = length (elems h (samples w))"
proof -
  from assms(1) have v: "valid_slice h (samples w)" by (simp add: valid_window_def)
  from assms(2) have h1: "h1 = h @ [elems h (samples w)]"
    and snap: "snap = \<lparr>arr = length h, off = 0, len = len (samples w), cap = len (samples w)\<rparr>"
    unfolding Snapshot_eq[OF assms(1)] by simp_all
  have l: "length (elems h (samples w)) = len (samples w)" by (rule length_elems[OF v])
  have 1: "elems h1 snap = elems h (samples w)"
    unfolding h1 snap using l by (simp add: elems_def)
  from assign_elems_frame[OF assms(3)]
  have fr: "length h \<le> length h2" "\<forall>j<length h. h2 ! j = h ! j"
    unfolding h1 snap by (auto simp: nth_append)
  have 2: "elems h2 (samples w) = elems h (samples w)"
    by (rule elems_frame(1)[OF v fr])
  have v2: "valid_window h2 w"
    unfolding valid_window_def by (rule elems_frame(2)[OF v fr])
  have 3: "elems (fst (Snapshot h2 w)) (snd (Snapshot h2 w)) = elems h (samples w)"
    unfolding Snapshot_eq[OF v2] using 2 l by (simp add: elems_def)
  show ?thesis using 1 2 3 l by (simp add: Len_def)
qed

text \<open>
  Claim C3, as amended. \<open>Add\<close> appends its arguments and removes the longest prefix of
  samples with \<open>now - s.T > W\<close>, where \<open>now\<close> is read at the start of the eviction. So the
  first retained sample has \<open>now - s.T \<le> W\<close>, and when the samples after the append are in
  non-decreasing timestamp order every retained sample has \<open>now - s.T \<le> W\<close>. (A sample of
  age exactly \<open>W\<close> stays, and so does a sample older than \<open>W\<close> behind a younger one. The
  duration \<open>W\<close> is any \<open>int64\<close> but the least, whose negation in Go is itself. The
  window before the call is any valid one: by \<open>adds_from_new_valid\<close> that is every window
  reached from a new one by a sequence of \<open>Add\<close> calls.)
\<close>

theorem Add_retains:
  assumes "valid_window h w" and "Add rt now xs (h, w) = (h', w')"
    and "- (2 ^ 63) < sint (windowDuration w)"
  shows "valid_window h' w' \<and>
         elems h' (samples w') =
           dropWhile (\<lambda>s. sint (windowDuration w) < now - Timestamp s) (elems h (samples w) @ xs) \<and>
         (elems h' (samples w') \<noteq> [] \<longrightarrow>
            now - Timestamp (hd (elems h' (samples w'))) \<le> sint (windowDuration w)) \<and>
         (sorted (map Timestamp (elems h (samples w) @ xs)) \<longrightarrow>
            (\<forall>s\<in>set (elems h' (samples w')). now - Timestamp s \<le> sint (windowDuration w)))"
proof -
  define W where "W = sint (windowDuration w)"
  define all where "all = elems h (samples w) @ xs"
  define kept where "kept = elems h' (samples w')"
  have c: "AddDur now (- windowDuration w) = now - W"
    unfolding W_def by (rule AddDur_neg[OF assms(3)])
  have eq: "(\<lambda>x. Timestamp x < now - W) = (\<lambda>s. W < now - Timestamp s)"
    by auto
  have "kept = dropWhile (\<lambda>x. Timestamp x < now - W) all"
    unfolding kept_def all_def using Add_elems(1)[OF assms(1,2)] c by simp
  then have kept: "kept = dropWhile (\<lambda>s. W < now - Timestamp s) all"
    unfolding eq .
  have hd: "kept \<noteq> [] \<longrightarrow> now - Timestamp (hd kept) \<le> W"
  proof
    assume "kept \<noteq> []"
    then have "\<not> W < now - Timestamp (hd kept)"
      unfolding kept by (rule hd_dropWhile)
    then show "now - Timestamp (hd kept) \<le> W" by simp
  qed
  have srt: "sorted (map Timestamp all) \<longrightarrow> (\<forall>s\<in>set kept. now - Timestamp s \<le> W)"
  proof (intro impI ballI)
    fix s assume so: "sorted (map Timestamp all)" and s: "s \<in> set kept"
    have "all = takeWhile (\<lambda>s. W < now - Timestamp s) all @ kept"
      unfolding kept by simp
    with so have "sorted (map Timestamp kept)"
      by (metis map_append sorted_append)
    moreover from s have ne: "kept \<noteq> []" by auto
    ultimately have "Timestamp (hd kept) \<le> Timestamp s"
      using s by (cases kept) auto
    with hd ne show "now - Timestamp s \<le> W" by linarith
  qed
  show ?thesis
    using Add_elems(2)[OF assms(1,2)] kept hd srt
    unfolding W_def all_def kept_def by simp
qed

lemmas window_defs = Add_def append_slice_def write_at_def elems_def index_def evict_def
  reslice_from_def NewSlidingWindow_def nil_slice_def AddDur_def Before_def Let_def
  valid_window_def valid_slice_def Snapshot_def make_slice_def copy_slice_def set_index_def Len_def

text \<open>
  Claim C3 as stated fails: a sample whose age is exactly \<open>W\<close> is retained, and so is a
  sample older than \<open>W\<close> that was added behind a younger one.
\<close>

theorem Add_within_window_counterexample:
  "\<not> within_window 5000000000
       (Add stable_runtime 5000000000 [sample_at 0 0 100] ([], NewSlidingWindow 5 1000000000)) \<and>
   \<not> within_window 8000000000
       (Add stable_runtime 8000000000 [sample_at 7000000000 0 100, sample_at 2000000000 0 100]
          ([], NewSlidingWindow 5 1000000000))"
  by (simp add: within_window_def window_defs stable_runtime_def sample_at_def)

theorem Add_retains_witness:
  "valid_window [] (NewSlidingWindow 5 1000000000) \<and>
   - (2 ^ 63) < sint (windowDuration (NewSlidingWindow 5 1000000000)) \<and>
   sorted (map Timestamp (elems [] (samples (NewSlidingWindow 5 1000000000)) @
      [sample_at 0 0 100, sample_at 3000000000 0 100])) \<and>
   elems (fst (Add stable_runtime 8000000000 [sample_at 0 0 100, sample_at 3000000000 0 100]
                 ([], NewSlidingWindow 5 1000000000)))
     (samples (snd (Add stable_runtime 8000000000 [sample_at 0 0 100, sample_at 3000000000 0 100]
                 ([], NewSlidingWindow 5 1000000000)))) = [sample_at 3000000000 0 100] \<and>
   8000000000 - Timestamp (sample_at 3000000000 0 100)
     \<le> sint (windowDuration (NewSlidingWindow 5 1000000000))"
proof -
  let ?w = "NewSlidingWindow 5 1000000000"
  let ?A = "Add stable_runtime 8000000000 [sample_at 0 0 100, sample_at 3000000000 0 100] ([], ?w)"
  have v: "valid_window [] ?w" by (simp add: window_defs)
  have a: "?A = (fst ?A, snd ?A)" by simp
  have d: "- (2 ^ 63) < sint (windowDuration ?w)" by (simp add: window_defs)
  have e: "elems (fst ?A) (samples (snd ?A)) = [sample_at 3000000000 0 100]"
    by (simp add: window_defs stable_runtime_def sample_at_def)
  have s: "sorted (map Timestamp (elems [] (samples ?w) @ [sample_at 0 0 100, sample_at 3000000000 0 100]))"
    by (simp add: window_defs sample_at_def)
  show ?thesis
    using Add_retains[OF v a d] v d e s by simp
qed

theorem Snapshot_independent_witness:
  "valid_window [[sample_at 1 0 100]] \<lparr>samples = \<lparr>arr = 0, off = 0, len = 1, cap = 1\<rparr>, windowDuration = 10\<rparr> \<and>
   Snapshot [[sample_at 1 0 100]] \<lparr>samples = \<lparr>arr = 0, off = 0, len = 1, cap = 1\<rparr>, windowDuration = 10\<rparr>
     = ([[sample_at 1 0 100], [sample_at 1 0 100]], \<lparr>arr = 1, off = 0, len = 1, cap = 1\<rparr>) \<and>
   assign_elems [[sample_at 1 0 100], [sample_at 1 0 100]] \<lparr>arr = 1, off = 0, len = 1, cap = 1\<rparr> [(0, sample_at 1 0 999)]
     = Some [[sample_at 1 0 100], [sample_at 1 0 999]] \<and>
   elems (fst (Snapshot [[sample_at 1 0 100], [sample_at 1 0 999]]
                 \<lparr>samples = \<lparr>arr = 0, off = 0, len = 1, cap = 1\<rparr>, windowDuration = 10\<rparr>))
         (snd (Snapshot [[sample_at 1 0 100], [sample_at 1 0 999]]
                 \<lparr>samples = \<lparr>arr = 0, off = 0, len = 1, cap = 1\<rparr>, windowDuration = 10\<rparr>))
     = [sample_at 1 0 100] \<and>
   Len \<lparr>samples = \<lparr>arr = 0, off = 0, len = 1, cap = 1\<rparr>, windowDuration = 10\<rparr> = 1"
proof -
  let ?w = "\<lparr>samples = \<lparr>arr = 0, off = 0, len = 1, cap = 1\<rparr>, windowDuration = 10\<rparr>"
  have v: "valid_window [[sample_at 1 0 100]] ?w" by (simp add: window_defs)
  have s: "Snapshot [[sample_at 1 0 100]] ?w
     = ([[sample_at 1 0 100], [sample_at 1 0 100]], \<lparr>arr = 1, off = 0, len = 1, cap = 1\<rparr>)"
    by (simp add: window_defs)
  have m: "assign_elems [[sample_at 1 0 100], [sample_at 1 0 100]] \<lparr>arr = 1, off = 0, len = 1, cap = 1\<rparr> [(0, sample_at 1 0 999)]
     = Some [[sample_at 1 0 100], [sample_at 1 0 999]]"
    by (simp add: window_defs)
  have e: "elems [[sample_at 1 0 100]] (samples ?w) = [sample_at 1 0 100]" by (simp add: window_defs)
  show ?thesis
    using Snapshot_independent[OF v s m] v s m e by simp
qed

subsection \<open>The evaluator: the latest sample of a partition and the total\<close>

lemma snd_group_step:
  "map_of (snd (group_step s m)) p =
     (if Partition s = p then later (map_of (snd m) p) s else map_of (snd m) p)"
  by (auto simp: group_step_def later_def After_def update_conv' split: prod.splits option.splits)

lemma latest_distinct_step:
  "distinct (map fst (snd m)) \<Longrightarrow> distinct (map fst (snd (group_step s m)))"
  by (auto simp: group_step_def distinct_update split: prod.splits option.splits)

lemma latest_distinct:
  "distinct (map fst (snd m)) \<Longrightarrow> distinct (map fst (snd (fold group_step xs m)))"
  by (induction xs arbitrary: m) (simp_all add: latest_distinct_step)

lemma latest_map_of:
  "map_of (snd (fold group_step xs m)) p =
     fold (\<lambda>s cur. later cur s) (filter (\<lambda>s. Partition s = p) xs) (map_of (snd m) p)"
  by (induction xs arbitrary: m) (simp_all add: snd_group_step)

lemma first_latest_skip_head:
  assumes "Timestamp e < Timestamp y"
  shows "first_latest (e # y # ys) = first_latest (y # ys)"
proof -
  define P where "P = (\<lambda>x::LagSample. \<forall>z\<in>set (e # y # ys). Timestamp z \<le> Timestamp x)"
  define Q where "Q = (\<lambda>x::LagSample. \<forall>z\<in>set (y # ys). Timestamp z \<le> Timestamp x)"
  have "P = Q"
    unfolding P_def Q_def using assms by (intro ext) force
  moreover have "\<not> P e"
    unfolding P_def using assms by auto
  ultimately have "find P (e # y # ys) = find Q (y # ys)" by simp
  then show ?thesis
    unfolding first_latest_def P_def Q_def .
qed

lemma first_latest_skip_second:
  assumes "\<not> Timestamp e < Timestamp y"
  shows "first_latest (e # y # ys) = first_latest (e # ys)"
proof -
  define P where "P = (\<lambda>x::LagSample. \<forall>z\<in>set (e # y # ys). Timestamp z \<le> Timestamp x)"
  define R where "R = (\<lambda>x::LagSample. \<forall>z\<in>set (e # ys). Timestamp z \<le> Timestamp x)"
  have "P = R"
    unfolding P_def R_def using assms by (intro ext) force
  moreover have "R y \<Longrightarrow> R e"
    unfolding R_def using assms by force
  ultimately have "find P (e # y # ys) = find R (e # ys)" by auto
  then show ?thesis
    unfolding first_latest_def P_def R_def .
qed

lemma fold_later_Some:
  "fold (\<lambda>s cur. later cur s) ys (Some e) = first_latest (e # ys)"
proof (induction ys arbitrary: e)
  case Nil
  then show ?case by (simp add: first_latest_def)
next
  case (Cons y ys)
  show ?case
  proof (cases "Timestamp e < Timestamp y")
    case True
    then show ?thesis
      using Cons.IH[of y] by (simp add: later_def first_latest_skip_head)
  next
    case False
    then show ?thesis
      using Cons.IH[of e] by (simp add: later_def first_latest_skip_second)
  qed
qed

lemma fold_later_None:
  "fold (\<lambda>s cur. later cur s) ys None = first_latest ys"
proof (cases ys)
  case Nil
  then show ?thesis by (simp add: first_latest_def)
next
  case (Cons y ys')
  have "later None y = Some y" by (simp add: later_def)
  then show ?thesis unfolding Cons by (simp add: fold_later_Some)
qed

lemma latest_entries_map_of:
  "map_of (snd (group_samples xs)) p = first_latest (filter (\<lambda>s. Partition s = p) xs)"
  by (simp add: group_samples_def latest_map_of fold_later_None)

lemma first_latest_props:
  assumes "ys \<noteq> []"
  shows "\<exists>x. first_latest ys = Some x \<and> x \<in> set ys \<and> (\<forall>y\<in>set ys. Timestamp y \<le> Timestamp x)"
proof -
  have "finite (Timestamp ` set ys)" "Timestamp ` set ys \<noteq> {}" using assms by auto
  then have "Max (Timestamp ` set ys) \<in> Timestamp ` set ys" by (rule Max_in)
  then obtain m where m: "m \<in> set ys" "Timestamp m = Max (Timestamp ` set ys)" by auto
  then have "\<forall>y\<in>set ys. Timestamp y \<le> Timestamp m" by simp
  with m(1) have "\<exists>x\<in>set ys. \<forall>y\<in>set ys. Timestamp y \<le> Timestamp x" by blast
  then have "first_latest ys \<noteq> None"
    unfolding first_latest_def by (auto simp: find_None_iff)
  then obtain x where "first_latest ys = Some x" by blast
  then show ?thesis
    unfolding first_latest_def by (auto simp: find_Some_iff)
qed

lemma latest_keys:
  "fst ` set (snd (group_samples xs)) = Partition ` set xs"
proof -
  have "fst ` set (snd (group_samples xs)) = dom (map_of (snd (group_samples xs)))"
    by (simp add: dom_map_of_conv_image_fst)
  also have "\<dots> = {p. filter (\<lambda>s. Partition s = p) xs \<noteq> []}"
  proof (rule set_eqI)
    fix p
    show "p \<in> dom (map_of (snd (group_samples xs))) \<longleftrightarrow>
          p \<in> {p. filter (\<lambda>s. Partition s = p) xs \<noteq> []}"
    proof (cases "filter (\<lambda>s. Partition s = p) xs = []")
      case True
      then show ?thesis
        by (simp add: dom_def latest_entries_map_of first_latest_def)
    next
      case False
      from first_latest_props[OF False] False show ?thesis
        by (auto simp: dom_def latest_entries_map_of)
    qed
  qed
  also have "\<dots> = Partition ` set xs"
    by (auto simp: filter_empty_conv)
  finally show ?thesis .
qed

lemma sum_latest_fold:
  "fold (\<lambda>(p, s) totalCurrentLag. totalCurrentLag + Lag s) al a = a + sum_list (map (\<lambda>e. Lag (snd e)) al)"
  by (induction al arbitrary: a) (auto simp: add.assoc)

lemma sum_latest_sum_list: "sum_list (map (\<lambda>e. Lag (snd e)) al) = sum_latest al"
  by (simp add: sum_latest_def sum_latest_fold)

lemma sum_latest_perm:
  assumes "mset al' = mset al"
  shows "sum_latest al' = sum_latest al"
proof -
  have "sum_mset (image_mset (\<lambda>e. Lag (snd e)) (mset al')) = sum_mset (image_mset (\<lambda>e. Lag (snd e)) (mset al))"
    using assms by simp
  then have "sum_list (map (\<lambda>e. Lag (snd e)) al') = sum_list (map (\<lambda>e. Lag (snd e)) al)"
    by (simp only: sum_mset_sum_list[symmetric] mset_map)
  then show ?thesis by (simp only: sum_latest_sum_list)
qed

lemma sum_latest_keys:
  "distinct (map fst al) \<Longrightarrow>
     sum_latest al = (\<Sum>p\<in>fst ` set al. case map_of al p of None \<Rightarrow> 0 | Some s \<Rightarrow> Lag s)"
proof (induction al)
  case Nil
  then show ?case by (simp add: sum_latest_def)
next
  case (Cons a al)
  obtain k v where a: "a = (k, v)" by (cases a)
  from Cons.prems a have k: "k \<notin> fst ` set al" and d: "distinct (map fst al)" by auto
  have "sum_latest (a # al) = Lag v + sum_latest al"
    unfolding sum_latest_sum_list[symmetric] a by simp
  also have "sum_latest al = (\<Sum>p\<in>fst ` set al. case map_of al p of None \<Rightarrow> 0 | Some s \<Rightarrow> Lag s)"
    by (rule Cons.IH[OF d])
  also have "\<dots> = (\<Sum>p\<in>fst ` set al. case map_of (a # al) p of None \<Rightarrow> 0 | Some s \<Rightarrow> Lag s)"
    using k by (intro sum.cong) (auto simp: a)
  finally show ?case
    using k by (simp add: a)
qed

lemma TotalCurrentLag_eq:
  assumes "mset (range_latest rt (snd (group_samples xs))) = mset (snd (group_samples xs))"
  shows "TotalCurrentLag (EvaluatePersistence rt xs t d) = (\<Sum>p\<in>Partition ` set xs. latest_lag xs p)"
proof (cases "xs = []")
  case True
  then show ?thesis by (simp add: EvaluatePersistence_def)
next
  case False
  obtain bp lp where g: "group_samples xs = (bp, lp)" by (cases "group_samples xs")
  have d: "distinct (map fst lp)"
    using latest_distinct[of "([], [])" xs] by (simp add: group_samples_def[symmetric] g)
  have "TotalCurrentLag (EvaluatePersistence rt xs t d) = sum_latest (range_latest rt lp)"
    using False g by (simp add: EvaluatePersistence_def)
  also have "\<dots> = sum_latest lp"
    using assms by (intro sum_latest_perm) (simp add: g)
  also have "\<dots> = (\<Sum>p\<in>fst ` set lp. case map_of lp p of None \<Rightarrow> 0 | Some s \<Rightarrow> Lag s)"
    by (rule sum_latest_keys[OF d])
  also have "\<dots> = (\<Sum>p\<in>Partition ` set xs. latest_lag xs p)"
    using latest_keys[of xs] latest_entries_map_of[of xs] by (simp add: g latest_lag_def)
  finally show ?thesis .
qed

lemma word_of_sint: "of_int (sint w) = (w :: int64)"
  by simp

lemma sint_sum_in_range:
  fixes f :: "'a \<Rightarrow> int64"
  assumes "- (2 ^ 63) \<le> (\<Sum>p\<in>A. sint (f p))" and "(\<Sum>p\<in>A. sint (f p)) < 2 ^ 63"
  shows "sint (\<Sum>p\<in>A. f p) = (\<Sum>p\<in>A. sint (f p))"
proof -
  have "(\<Sum>p\<in>A. f p) = (\<Sum>p\<in>A. of_int (sint (f p)))"
    by (simp add: word_of_sint)
  also have "\<dots> = of_int (\<Sum>p\<in>A. sint (f p))"
    by (simp only: of_int_sum)
  finally have "sint (\<Sum>p\<in>A. f p) = signed_take_bit 63 (\<Sum>p\<in>A. sint (f p))"
    by (simp only: sint_sbintrunc') simp
  also have "\<dots> = (\<Sum>p\<in>A. sint (f p))"
    using assms by (rule signed_take_bit_int_eq_self)
  finally show ?thesis .
qed

lemma first_latest_split:
  assumes "first_latest ys = Some x"
  shows "\<exists>pre post. ys = pre @ x # post \<and> (\<forall>y\<in>set pre. Timestamp y < Timestamp x) \<and>
           (\<forall>y\<in>set post. Timestamp y \<le> Timestamp x)"
proof -
  from assms obtain i where i: "i < length ys" "x = ys ! i"
    and mx: "\<forall>y\<in>set ys. Timestamp y \<le> Timestamp x"
    and before: "\<forall>j<i. \<not> (\<forall>y\<in>set ys. Timestamp y \<le> Timestamp (ys ! j))"
    unfolding first_latest_def find_Some_iff by blast
  have ys: "ys = take i ys @ x # drop (Suc i) ys"
    using i by (simp add: id_take_nth_drop)
  have "\<forall>y\<in>set (take i ys). Timestamp y < Timestamp x"
  proof
    fix y assume "y \<in> set (take i ys)"
    then obtain j where j: "j < i" "y = ys ! j"
      using i(1) by (auto simp: in_set_conv_nth)
    with before obtain z where "z \<in> set ys" "\<not> Timestamp z \<le> Timestamp y" by blast
    with mx show "Timestamp y < Timestamp x" by force
  qed
  moreover have "\<forall>y\<in>set (drop (Suc i) ys). Timestamp y \<le> Timestamp x"
    using mx by (meson in_set_dropD)
  ultimately show ?thesis using ys by blast
qed

text \<open>
  Claim C2. The \<open>totalCurrentLag\<close> that \<open>EvaluatePersistence\<close> returns is the sum (in
  \<open>int64\<close>, as in the code), over the distinct partition ids of the input, of the lag of
  a sample of that partition with the largest timestamp; when the sum of the signed lags
  fits in 64 bits it is that integer. For the empty list it is 0.
\<close>

theorem TotalCurrentLag_sum_of_latest:
  assumes "go_runtime_ok rt"
  shows "TotalCurrentLag (EvaluatePersistence rt [] t d) = 0 \<and>
         TotalCurrentLag (EvaluatePersistence rt xs t d) = (\<Sum>p\<in>Partition ` set xs. latest_lag xs p) \<and>
         (\<forall>p\<in>Partition ` set xs. \<exists>s\<in>set xs. Partition s = p \<and> latest_lag xs p = Lag s \<and>
            (\<forall>s'\<in>set xs. Partition s' = p \<longrightarrow> Timestamp s' \<le> Timestamp s)) \<and>
         (- (2 ^ 63) \<le> (\<Sum>p\<in>Partition ` set xs. sint (latest_lag xs p)) \<and>
          (\<Sum>p\<in>Partition ` set xs. sint (latest_lag xs p)) < 2 ^ 63 \<longrightarrow>
            sint (TotalCurrentLag (EvaluatePersistence rt xs t d)) =
              (\<Sum>p\<in>Partition ` set xs. sint (latest_lag xs p)))"
proof -
  from assms have perm: "mset (range_latest rt (snd (group_samples xs))) = mset (snd (group_samples xs))"
    unfolding go_runtime_ok_def by blast
  have total: "TotalCurrentLag (EvaluatePersistence rt xs t d) = (\<Sum>p\<in>Partition ` set xs. latest_lag xs p)"
    by (rule TotalCurrentLag_eq[OF perm])
  have pick: "\<forall>p\<in>Partition ` set xs. \<exists>s\<in>set xs. Partition s = p \<and> latest_lag xs p = Lag s \<and>
            (\<forall>s'\<in>set xs. Partition s' = p \<longrightarrow> Timestamp s' \<le> Timestamp s)"
  proof
    fix p assume "p \<in> Partition ` set xs"
    then have ne: "filter (\<lambda>s. Partition s = p) xs \<noteq> []"
      by (auto simp: filter_empty_conv)
    from first_latest_props[OF ne] obtain x where x: "first_latest (filter (\<lambda>s. Partition s = p) xs) = Some x"
      "x \<in> set (filter (\<lambda>s. Partition s = p) xs)"
      "\<forall>y\<in>set (filter (\<lambda>s. Partition s = p) xs). Timestamp y \<le> Timestamp x"
      by blast
    then show "\<exists>s\<in>set xs. Partition s = p \<and> latest_lag xs p = Lag s \<and>
            (\<forall>s'\<in>set xs. Partition s' = p \<longrightarrow> Timestamp s' \<le> Timestamp s)"
      by (intro bexI[of _ x]) (auto simp: latest_lag_def)
  qed
  have fits: "- (2 ^ 63) \<le> (\<Sum>p\<in>Partition ` set xs. sint (latest_lag xs p)) \<and>
          (\<Sum>p\<in>Partition ` set xs. sint (latest_lag xs p)) < 2 ^ 63 \<longrightarrow>
            sint (TotalCurrentLag (EvaluatePersistence rt xs t d)) =
              (\<Sum>p\<in>Partition ` set xs. sint (latest_lag xs p))"
  proof
    assume r: "- (2 ^ 63) \<le> (\<Sum>p\<in>Partition ` set xs. sint (latest_lag xs p)) \<and>
          (\<Sum>p\<in>Partition ` set xs. sint (latest_lag xs p)) < 2 ^ 63"
    show "sint (TotalCurrentLag (EvaluatePersistence rt xs t d)) =
              (\<Sum>p\<in>Partition ` set xs. sint (latest_lag xs p))"
      unfolding total by (rule sint_sum_in_range) (use r in simp_all)
  qed
  have empty: "TotalCurrentLag (EvaluatePersistence rt [] t d) = 0"
    by (simp add: EvaluatePersistence_def)
  from empty total pick fits show ?thesis by (intro conjI)
qed

lemma any_persistent_set:
  "set al' = set al \<Longrightarrow> any_persistent srt al' t d = any_persistent srt al t d"
  by (simp add: any_persistent_iff)

lemma EvaluatePersistence_runtime_independent:
  assumes "go_runtime_ok rt" and "go_runtime_ok rt'" and "sort_Slice rt' = sort_Slice rt"
  shows "EvaluatePersistence rt' xs t d = EvaluatePersistence rt xs t d"
proof (cases "xs = []")
  case True
  then show ?thesis by (simp add: EvaluatePersistence_def)
next
  case False
  obtain bp lp where g: "group_samples xs = (bp, lp)" by (cases "group_samples xs")
  from assms(1) have a: "mset (range_groups rt bp) = mset bp" "mset (range_latest rt lp) = mset lp"
    unfolding go_runtime_ok_def by blast+
  from assms(2) have b: "mset (range_groups rt' bp) = mset bp" "mset (range_latest rt' lp) = mset lp"
    unfolding go_runtime_ok_def by blast+
  have "set (range_groups rt' bp) = set bp" "set (range_groups rt bp) = set bp"
    using a(1) b(1) by (auto dest: mset_eq_setD)
  then have "any_persistent (sort_Slice rt) (range_groups rt' bp) t d = any_persistent (sort_Slice rt) (range_groups rt bp) t d"
    by (intro any_persistent_set) simp
  moreover have "sum_latest (range_latest rt' lp) = sum_latest (range_latest rt lp)"
    using sum_latest_perm[OF a(2)] sum_latest_perm[OF b(2)] by simp
  ultimately show ?thesis
    using False g assms(3) by (simp add: EvaluatePersistence_def)
qed

text \<open>
  Claim C9. The tracked latest sample of a partition is replaced only by a sample with a
  strictly later timestamp. So the sample the map holds for a partition after the loop is
  the first one, in input order, among those of the partition with the largest timestamp
  (every earlier sample of the partition is strictly older, every later one at most as
  old), its lag is what the partition adds to \<open>totalCurrentLag\<close>, and the result does not
  depend on the order in which the runtime visits the two maps.
\<close>

theorem latest_tie_break_deterministic:
  assumes "go_runtime_ok rt" and "go_runtime_ok rt'" and "sort_Slice rt' = sort_Slice rt"
  shows "map_of (snd (group_step s m)) (Partition s) = later (map_of (snd m) (Partition s)) s \<and>
         (\<forall>p\<in>Partition ` set xs. \<exists>pre x post.
            filter (\<lambda>s. Partition s = p) xs = pre @ x # post \<and>
            (\<forall>y\<in>set pre. Timestamp y < Timestamp x) \<and>
            (\<forall>y\<in>set post. Timestamp y \<le> Timestamp x) \<and>
            map_of (snd (group_samples xs)) p = Some x \<and> latest_lag xs p = Lag x) \<and>
         TotalCurrentLag (EvaluatePersistence rt xs t d) = (\<Sum>p\<in>Partition ` set xs. latest_lag xs p) \<and>
         EvaluatePersistence rt' xs t d = EvaluatePersistence rt xs t d"
proof -
  from assms(1) have perm: "mset (range_latest rt (snd (group_samples xs))) = mset (snd (group_samples xs))"
    unfolding go_runtime_ok_def by blast
  have 1: "map_of (snd (group_step s m)) (Partition s) = later (map_of (snd m) (Partition s)) s"
    by (simp add: snd_group_step)
  have 2: "\<forall>p\<in>Partition ` set xs. \<exists>pre x post.
            filter (\<lambda>s. Partition s = p) xs = pre @ x # post \<and>
            (\<forall>y\<in>set pre. Timestamp y < Timestamp x) \<and>
            (\<forall>y\<in>set post. Timestamp y \<le> Timestamp x) \<and>
            map_of (snd (group_samples xs)) p = Some x \<and> latest_lag xs p = Lag x"
  proof
    fix p assume "p \<in> Partition ` set xs"
    then have ne: "filter (\<lambda>s. Partition s = p) xs \<noteq> []"
      by (auto simp: filter_empty_conv)
    from first_latest_props[OF ne] obtain x where x: "first_latest (filter (\<lambda>s. Partition s = p) xs) = Some x"
      by blast
    from first_latest_split[OF x] obtain pre post where
      "filter (\<lambda>s. Partition s = p) xs = pre @ x # post" "\<forall>y\<in>set pre. Timestamp y < Timestamp x"
      "\<forall>y\<in>set post. Timestamp y \<le> Timestamp x" by blast
    with x show "\<exists>pre x post.
            filter (\<lambda>s. Partition s = p) xs = pre @ x # post \<and>
            (\<forall>y\<in>set pre. Timestamp y < Timestamp x) \<and>
            (\<forall>y\<in>set post. Timestamp y \<le> Timestamp x) \<and>
            map_of (snd (group_samples xs)) p = Some x \<and> latest_lag xs p = Lag x"
      by (intro exI[of _ pre] exI[of _ x] exI[of _ post]) (simp add: latest_entries_map_of latest_lag_def)
  qed
  note 3 = TotalCurrentLag_eq[OF perm, of t d]
  note 4 = EvaluatePersistence_runtime_independent[OF assms, of xs t d]
  from 1 2 3 4 show ?thesis by (intro conjI)
qed

theorem TotalCurrentLag_sum_of_latest_witness:
  "go_runtime_ok stable_runtime \<and>
   TotalCurrentLag (EvaluatePersistence stable_runtime
     [sample_at 0 0 500, sample_at 10 0 200, sample_at 0 1 300, sample_at 10 1 400] 500 120) = 600 \<and>
   (\<Sum>p\<in>Partition ` set [sample_at 0 0 500, sample_at 10 0 200, sample_at 0 1 300, sample_at 10 1 400].
      latest_lag [sample_at 0 0 500, sample_at 10 0 200, sample_at 0 1 300, sample_at 10 1 400] p) = 600"
proof -
  let ?xs = "[sample_at 0 0 500, sample_at 10 0 200, sample_at 0 1 300, sample_at 10 1 400]"
  have ok: "go_runtime_ok stable_runtime"
    by (simp add: go_runtime_ok_def stable_runtime_def)
  have v: "TotalCurrentLag (EvaluatePersistence stable_runtime ?xs 500 120) = 600"
    by (simp add: eval_defs)
  show ?thesis
    using ok v TotalCurrentLag_sum_of_latest[OF ok, of 500 120 ?xs] by simp
qed

theorem latest_tie_break_deterministic_witness:
  "go_runtime_ok stable_runtime \<and> go_runtime_ok reverse_runtime \<and>
   sort_Slice reverse_runtime = sort_Slice stable_runtime \<and>
   TotalCurrentLag (EvaluatePersistence stable_runtime
     [sample_at 10 0 100, sample_at 10 0 999, sample_at 5 0 1] 500 120) = 100 \<and>
   (\<Sum>p\<in>Partition ` set [sample_at 10 0 100, sample_at 10 0 999, sample_at 5 0 1].
      latest_lag [sample_at 10 0 100, sample_at 10 0 999, sample_at 5 0 1] p) = 100 \<and>
   EvaluatePersistence reverse_runtime [sample_at 10 0 100, sample_at 10 0 999, sample_at 5 0 1] 500 120 =
   EvaluatePersistence stable_runtime [sample_at 10 0 100, sample_at 10 0 999, sample_at 5 0 1] 500 120"
proof -
  let ?xs = "[sample_at 10 0 100, sample_at 10 0 999, sample_at 5 0 1]"
  have ok: "go_runtime_ok stable_runtime"
    by (simp add: go_runtime_ok_def stable_runtime_def)
  have ok': "go_runtime_ok reverse_runtime"
    by (simp add: go_runtime_ok_def reverse_runtime_def)
  have srt: "sort_Slice reverse_runtime = sort_Slice stable_runtime"
    by (simp add: stable_runtime_def reverse_runtime_def)
  have v: "TotalCurrentLag (EvaluatePersistence stable_runtime ?xs 500 120) = 100"
    by (simp add: eval_defs)
  show ?thesis
    using ok ok' srt v latest_tie_break_deterministic[OF ok ok' srt, of _ _ ?xs 500 120] by simp
qed

subsection \<open>The scaler service\<close>

lemma evaluate_eq:
  assumes "valid_window h (window srv)"
  shows "evaluate rt h srv =
     EvaluatePersistence rt (elems h (samples (window srv)))
       (LagThreshold (config srv)) (SustainDuration (config srv))"
proof -
  from assms have v: "valid_slice h (samples (window srv))" by (simp add: valid_window_def)
  have "elems (h @ [elems h (samples (window srv))])
          \<lparr>arr = length h, off = 0, len = len (samples (window srv)), cap = len (samples (window srv))\<rparr>
        = elems h (samples (window srv))"
    using length_elems[OF v] by (simp add: elems_def)
  then show ?thesis
    by (simp add: evaluate_def Snapshot_eq[OF assms])
qed

text \<open>
  Claim C6. \<open>GetMetrics\<close> returns exactly one metric value, named \<open>persistent_kafka_lag\<close>;
  its value is the evaluator's \<open>totalCurrentLag\<close> on the window's snapshot when \<open>IsActive\<close>
  on the same window returns true, and 0 otherwise; \<open>IsActive\<close> returns the evaluator's
  \<open>persistent\<close>; neither returns an error (whatever order the runtime visits the
  evaluator's maps in, in either call).
\<close>

theorem GetMetrics_coupled:
  assumes "valid_window h (window srv)"
    and "go_runtime_ok rt" and "go_runtime_ok rt'" and "sort_Slice rt' = sort_Slice rt"
  shows "GetMetrics rt h srv =
           Inr \<lparr>MetricValues =
                  [\<lparr>MetricName = ''persistent_kafka_lag'',
                    MetricValue =
                      (if IsActive rt' h srv = Inr \<lparr>Result = True\<rparr>
                       then TotalCurrentLag (EvaluatePersistence rt (elems h (samples (window srv)))
                              (LagThreshold (config srv)) (SustainDuration (config srv)))
                       else 0)\<rparr>]\<rparr> \<and>
         IsActive rt' h srv =
           Inr \<lparr>Result = Persistent (EvaluatePersistence rt (elems h (samples (window srv)))
                              (LagThreshold (config srv)) (SustainDuration (config srv)))\<rparr>"
proof -
  define r where "r = EvaluatePersistence rt (elems h (samples (window srv)))
                              (LagThreshold (config srv)) (SustainDuration (config srv))"
  have e: "evaluate rt h srv = r" "evaluate rt' h srv = r"
    unfolding r_def evaluate_eq[OF assms(1)]
    using EvaluatePersistence_runtime_independent[OF assms(2,3,4)] by simp_all
  have a: "IsActive rt' h srv = Inr \<lparr>Result = Persistent r\<rparr>"
    by (simp add: IsActive_def e)
  have g: "GetMetrics rt h srv =
     Inr \<lparr>MetricValues = [\<lparr>MetricName = ''persistent_kafka_lag'',
                             MetricValue = (if Persistent r then TotalCurrentLag r else 0)\<rparr>]\<rparr>"
    by (simp add: GetMetrics_def e)
  show ?thesis
    unfolding r_def[symmetric] a g by simp
qed

theorem GetMetrics_coupled_witness:
  "valid_window [[sample_at 0 0 500, sample_at 120000000000 0 500, sample_at 120000000000 1 7]]
     (window (New \<lparr>samples = \<lparr>arr = 0, off = 0, len = 3, cap = 3\<rparr>, windowDuration = 300 * Second\<rparr>
                  example_config)) \<and>
   go_runtime_ok stable_runtime \<and> go_runtime_ok reverse_runtime \<and>
   sort_Slice reverse_runtime = sort_Slice stable_runtime \<and>
   GetMetrics stable_runtime
     [[sample_at 0 0 500, sample_at 120000000000 0 500, sample_at 120000000000 1 7]]
     (New \<lparr>samples = \<lparr>arr = 0, off = 0, len = 3, cap = 3\<rparr>, windowDuration = 300 * Second\<rparr>
          example_config)
   = Inr \<lparr>MetricValues = [\<lparr>MetricName = ''persistent_kafka_lag'', MetricValue = 507\<rparr>]\<rparr> \<and>
   IsActive reverse_runtime
     [[sample_at 0 0 500, sample_at 120000000000 0 500, sample_at 120000000000 1 7]]
     (New \<lparr>samples = \<lparr>arr = 0, off = 0, len = 3, cap = 3\<rparr>, windowDuration = 300 * Second\<rparr>
          example_config)
   = Inr \<lparr>Result = True\<rparr>"
proof -
  let ?h = "[[sample_at 0 0 500, sample_at 120000000000 0 500, sample_at 120000000000 1 7]]"
  let ?srv = "New \<lparr>samples = \<lparr>arr = 0, off = 0, len = 3, cap = 3\<rparr>, windowDuration = 300 * Second\<rparr>
          example_config"
  have v: "valid_window ?h (window ?srv)"
    by (simp add: New_def window_defs)
  have ok: "go_runtime_ok stable_runtime"
    by (simp add: go_runtime_ok_def stable_runtime_def)
  have ok': "go_runtime_ok reverse_runtime"
    by (simp add: go_runtime_ok_def reverse_runtime_def)
  have srt: "sort_Slice reverse_runtime = sort_Slice stable_runtime"
    by (simp add: stable_runtime_def reverse_runtime_def)
  have ev: "EvaluatePersistence stable_runtime (elems ?h (samples (window ?srv)))
       (LagThreshold (config ?srv)) (SustainDuration (config ?srv))
     = \<lparr>Persistent = True, TotalCurrentLag = 507\<rparr>"
    by (simp add: New_def example_config_def Second_def elems_def eval_defs)
  show ?thesis
    using v ok ok' srt GetMetrics_coupled[OF v ok ok' srt] unfolding ev by simp
qed

subsection \<open>The lag fetcher\<close>

lemma committedOffsets_loop_Some:
  "committedOffsets_loop m pos = Inr m' \<Longrightarrow> m' p = Some v \<Longrightarrow>
     m p = Some v \<or>
     (\<exists>po\<in>set pos. ofp_Partition po = p \<and>
        v = (if sint (CommittedOffset po) < 0 then 0 else CommittedOffset po))"
proof (induction pos arbitrary: m)
  case Nil
  then show ?case by simp
next
  case (Cons po pos)
  from Cons.prems(1) have e: "ofp_Error po = None"
    by (auto split: option.splits)
  define c where "c = (if sint (CommittedOffset po) < 0 then 0 else CommittedOffset po)"
  from Cons.prems(1) e have l: "committedOffsets_loop (m(ofp_Partition po \<mapsto> c)) pos = Inr m'"
    by (simp add: c_def word_sless_alt Let_def)
  from Cons.IH[OF l Cons.prems(2)] show ?case
    unfolding c_def by (auto split: if_splits)
qed

lemma committedOffsets_loop_dom:
  "committedOffsets_loop m pos = Inr m' \<Longrightarrow> p \<in> dom m \<union> ofp_Partition ` set pos \<Longrightarrow> p \<in> dom m'"
proof (induction pos arbitrary: m)
  case Nil
  then show ?case by simp
next
  case (Cons po pos)
  from Cons.prems(1) have e: "ofp_Error po = None"
    by (auto split: option.splits)
  define c where "c = (if sint (CommittedOffset po) < 0 then 0 else CommittedOffset po)"
  from Cons.prems(1) e have l: "committedOffsets_loop (m(ofp_Partition po \<mapsto> c)) pos = Inr m'"
    by (simp add: c_def word_sless_alt Let_def)
  from Cons.prems(2) have "p \<in> dom (m(ofp_Partition po \<mapsto> c)) \<union> ofp_Partition ` set pos"
    by auto
  from Cons.IH[OF l this] show ?case .
qed

lemma at_committed_nonneg:
  assumes "committedOffsets_loop Map.empty pos = Inr m'"
  shows "0 \<le> sint (at m' p)"
proof (cases "m' p")
  case None
  then show ?thesis by (simp add: at_def)
next
  case (Some v)
  from committedOffsets_loop_Some[OF assms Some] show ?thesis
    using Some by (auto simp: at_def split: if_splits)
qed

lemma at_committed_reported:
  assumes "committedOffsets_loop Map.empty pos = Inr m'"
    and "\<exists>po\<in>set pos. ofp_Partition po = p"
    and "\<forall>po\<in>set pos. ofp_Partition po = p \<longrightarrow> CommittedOffset po = c"
  shows "at m' p = (if sint c < 0 then 0 else c)"
proof -
  from assms(2) have "p \<in> dom Map.empty \<union> ofp_Partition ` set pos" by auto
  from committedOffsets_loop_dom[OF assms(1) this] obtain v where v: "m' p = Some v" by auto
  from committedOffsets_loop_Some[OF assms(1) v] assms(3) show ?thesis
    using v by (auto simp: at_def)
qed

lemma sint_diff_nonneg:
  fixes e c :: int64
  assumes "0 \<le> sint e" and "0 \<le> sint c"
  shows "sint (e - c) = sint e - sint c"
proof -
  have "sint e < 2 ^ 63" "sint c < 2 ^ 63" using sint_lt[of e] sint_lt[of c] by simp_all
  with assms have "signed_take_bit 63 (sint e - sint c) = sint e - sint c"
    by (intro signed_take_bit_int_eq_self) simp_all
  then show ?thesis by (simp add: sint_word_diff)
qed

lemma lag_sample_props:
  assumes "0 \<le> sint (at cm p)"
  shows "Partition (lag_sample now name em cm p) = p"
    and "Offset (lag_sample now name em cm p) = at cm p"
    and "EndOffset (lag_sample now name em cm p) = at em p"
    and "0 \<le> sint (Lag (lag_sample now name em cm p))"
    and "sint (Lag (lag_sample now name em cm p)) = max 0 (sint (at em p - at cm p))"
    and "0 \<le> sint (at em p) \<Longrightarrow>
           sint (Lag (lag_sample now name em cm p)) = max 0 (sint (at em p) - sint (at cm p))"
    and "at cm p = 0 \<Longrightarrow> 0 \<le> sint (at em p) \<Longrightarrow> Lag (lag_sample now name em cm p) = at em p"
  using assms
  by (auto simp: lag_sample_def Let_def word_sless_alt sint_diff_nonneg)

lemma endOffsets_loop_Some:
  "endOffsets_loop m pos = Inr m' \<Longrightarrow> m' p = Some v \<Longrightarrow>
     m p = Some v \<or> (\<exists>po\<in>set pos. po_Partition po = p \<and> v = LastOffset po)"
proof (induction pos arbitrary: m)
  case Nil
  then show ?case by simp
next
  case (Cons po pos)
  from Cons.prems(1) have e: "po_Error po = None"
    by (auto split: option.splits)
  with Cons.prems(1) have l: "endOffsets_loop (m(po_Partition po \<mapsto> LastOffset po)) pos = Inr m'"
    by simp
  from Cons.IH[OF l Cons.prems(2)] show ?case
    by (auto split: if_splits)
qed

lemma endOffsets_loop_dom:
  "endOffsets_loop m pos = Inr m' \<Longrightarrow> p \<in> dom m \<union> po_Partition ` set pos \<Longrightarrow> p \<in> dom m'"
proof (induction pos arbitrary: m)
  case Nil
  then show ?case by simp
next
  case (Cons po pos)
  from Cons.prems(1) have e: "po_Error po = None"
    by (auto split: option.splits)
  with Cons.prems(1) have l: "endOffsets_loop (m(po_Partition po \<mapsto> LastOffset po)) pos = Inr m'"
    by simp
  from Cons.prems(2) have "p \<in> dom (m(po_Partition po \<mapsto> LastOffset po)) \<union> po_Partition ` set pos"
    by auto
  from Cons.IH[OF l this] show ?case .
qed

lemma at_end_reported:
  assumes "endOffsets_loop Map.empty pos = Inr m'"
    and "\<exists>po\<in>set pos. po_Partition po = p"
    and "\<forall>po\<in>set pos. po_Partition po = p \<longrightarrow> LastOffset po = e"
  shows "at m' p = e"
proof -
  from assms(2) have "p \<in> dom Map.empty \<union> po_Partition ` set pos" by auto
  from endOffsets_loop_dom[OF assms(1) this] obtain v where v: "m' p = Some v" by auto
  from endOffsets_loop_Some[OF assms(1) v] assms(3) show ?thesis
    using v by (auto simp: at_def)
qed

text \<open>
  Claim C7. Every sample that \<open>FetchLag\<close> emits carries a committed offset that is not
  negative and a lag that is not negative and equals \<open>max(0, end_offset - committed_offset)\<close>
  (the subtraction is Go's on \<open>int64\<close>; it is the integer difference whenever the end
  offset is not negative, as the broker's offsets are). The committed offset of the sample
  is the one the broker reports for the partition, with a negative report (no committed
  offset) replaced by 0, and then the lag equals the end offset; the end offset of the
  sample is the one the broker reports.
\<close>

theorem FetchLag_lag:
  assumes "FetchLag f now = Inr out" and "s \<in> set out"
  shows "0 \<le> sint (Offset s) \<and> 0 \<le> sint (Lag s) \<and>
         sint (Lag s) = max 0 (sint (EndOffset s - Offset s)) \<and>
         (0 \<le> sint (EndOffset s) \<longrightarrow> sint (Lag s) = max 0 (sint (EndOffset s) - sint (Offset s))) \<and>
         (\<forall>partitions fetchResp c.
            discover_partitions f = Inr partitions \<longrightarrow>
            offset_fetch f partitions = Inr fetchResp \<longrightarrow>
            (\<exists>po\<in>set (entries fetchResp (topic f)). ofp_Partition po = Partition s) \<longrightarrow>
            (\<forall>po\<in>set (entries fetchResp (topic f)).
               ofp_Partition po = Partition s \<longrightarrow> CommittedOffset po = c) \<longrightarrow>
            Offset s = (if sint c < 0 then 0 else c) \<and>
            (sint c < 0 \<and> 0 \<le> sint (EndOffset s) \<longrightarrow> Lag s = EndOffset s)) \<and>
         (\<forall>partitions listResp e.
            discover_partitions f = Inr partitions \<longrightarrow>
            list_offsets f partitions = Inr listResp \<longrightarrow>
            (\<exists>po\<in>set (entries listResp (topic f)). po_Partition po = Partition s) \<longrightarrow>
            (\<forall>po\<in>set (entries listResp (topic f)).
               po_Partition po = Partition s \<longrightarrow> LastOffset po = e) \<longrightarrow>
            EndOffset s = e)"
proof -
  from assms(1) obtain partitions listResp em fetchResp cm where
    dp: "discover_partitions f = Inr partitions"
    and lo: "list_offsets f partitions = Inr listResp"
    and el: "endOffsets_loop Map.empty (entries listResp (topic f)) = Inr em"
    and fe: "offset_fetch f partitions = Inr fetchResp"
    and cl: "committedOffsets_loop Map.empty (entries fetchResp (topic f)) = Inr cm"
    and out: "out = map (lag_sample now (topic f) em cm) partitions"
    unfolding FetchLag_def by (auto split: sum.splits)
  from assms(2) out obtain p where s: "s = lag_sample now (topic f) em cm p"
    by auto
  have nn: "0 \<le> sint (at cm p)"
    by (rule at_committed_nonneg[OF cl])
  note props = lag_sample_props[OF nn, where now=now and name="topic f" and em=em]
  have 1: "0 \<le> sint (Offset s)" using nn props(2) by (simp add: s)
  have 2: "0 \<le> sint (Lag s)" using props(4) by (simp add: s)
  have 3: "sint (Lag s) = max 0 (sint (EndOffset s - Offset s))"
    using props(2,3,5) by (simp add: s)
  have 4: "0 \<le> sint (EndOffset s) \<longrightarrow> sint (Lag s) = max 0 (sint (EndOffset s) - sint (Offset s))"
    using props(2,3,6) by (simp add: s)
  have 5: "\<forall>partitions fetchResp c.
            discover_partitions f = Inr partitions \<longrightarrow>
            offset_fetch f partitions = Inr fetchResp \<longrightarrow>
            (\<exists>po\<in>set (entries fetchResp (topic f)). ofp_Partition po = Partition s) \<longrightarrow>
            (\<forall>po\<in>set (entries fetchResp (topic f)).
               ofp_Partition po = Partition s \<longrightarrow> CommittedOffset po = c) \<longrightarrow>
            Offset s = (if sint c < 0 then 0 else c) \<and>
            (sint c < 0 \<and> 0 \<le> sint (EndOffset s) \<longrightarrow> Lag s = EndOffset s)"
  proof (intro allI impI)
    fix partitions' fetchResp' c
    assume a: "discover_partitions f = Inr partitions'" "offset_fetch f partitions' = Inr fetchResp'"
      and ex: "\<exists>po\<in>set (entries fetchResp' (topic f)). ofp_Partition po = Partition s"
      and al: "\<forall>po\<in>set (entries fetchResp' (topic f)).
               ofp_Partition po = Partition s \<longrightarrow> CommittedOffset po = c"
    from a dp fe have r: "fetchResp' = fetchResp" by simp
    have ps: "Partition s = p" using props(1) by (simp add: s)
    have o: "at cm p = (if sint c < 0 then 0 else c)"
      using at_committed_reported[OF cl, of p c] ex al unfolding r ps by blast
    have o': "Offset s = (if sint c < 0 then 0 else c)"
      using o props(2) by (simp add: s)
    have "sint c < 0 \<and> 0 \<le> sint (EndOffset s) \<longrightarrow> Lag s = EndOffset s"
    proof
      assume h: "sint c < 0 \<and> 0 \<le> sint (EndOffset s)"
      with o have z: "at cm p = 0" by simp
      from h props(3) have "0 \<le> sint (at em p)" by (simp add: s)
      from props(7)[OF z this] props(3) show "Lag s = EndOffset s" by (simp add: s)
    qed
    with o' show "Offset s = (if sint c < 0 then 0 else c) \<and>
            (sint c < 0 \<and> 0 \<le> sint (EndOffset s) \<longrightarrow> Lag s = EndOffset s)" ..
  qed
  have 6: "\<forall>partitions listResp e.
            discover_partitions f = Inr partitions \<longrightarrow>
            list_offsets f partitions = Inr listResp \<longrightarrow>
            (\<exists>po\<in>set (entries listResp (topic f)). po_Partition po = Partition s) \<longrightarrow>
            (\<forall>po\<in>set (entries listResp (topic f)).
               po_Partition po = Partition s \<longrightarrow> LastOffset po = e) \<longrightarrow>
            EndOffset s = e"
  proof (intro allI impI)
    fix partitions' listResp' e
    assume a: "discover_partitions f = Inr partitions'" "list_offsets f partitions' = Inr listResp'"
      and ex: "\<exists>po\<in>set (entries listResp' (topic f)). po_Partition po = Partition s"
      and al: "\<forall>po\<in>set (entries listResp' (topic f)).
               po_Partition po = Partition s \<longrightarrow> LastOffset po = e"
    from a dp lo have r: "listResp' = listResp" by simp
    have ps: "Partition s = p" using props(1) by (simp add: s)
    have "at em p = e"
      using at_end_reported[OF el, of p e] ex al unfolding r ps by blast
    then show "EndOffset s = e" using props(3) by (simp add: s)
  qed
  from 1 2 3 4 5 6 show ?thesis by (intro conjI)
qed

lemmas fetch_defs = FetchLag_def discover_partitions_def list_offsets_def offset_fetch_def
  entries_def at_def request_per_topic_def lag_sample_def example_fetcher_def example_client_def
  word_sless_alt Let_def

theorem FetchLag_lag_witness:
  "FetchLag example_fetcher 42 =
     Inr [\<lparr>Timestamp = 42, Topic = ''orders'', Partition = 0, Lag = 100, Offset = 0, EndOffset = 100\<rparr>,
          \<lparr>Timestamp = 42, Topic = ''orders'', Partition = 1, Lag = 30, Offset = 20, EndOffset = 50\<rparr>,
          \<lparr>Timestamp = 42, Topic = ''orders'', Partition = 2, Lag = 0, Offset = 9, EndOffset = 7\<rparr>] \<and>
   sint (Lag \<lparr>Timestamp = 42, Topic = ''orders'', Partition = 2, Lag = 0, Offset = 9, EndOffset = 7\<rparr>)
     = max 0 (sint (7 :: int64) - sint (9 :: int64)) \<and>
   Offset \<lparr>Timestamp = 42, Topic = ''orders'', Partition = 0, Lag = 100, Offset = 0, EndOffset = 100\<rparr>
     = (if sint (- 1 :: int64) < 0 then 0 else - 1) \<and>
   Lag \<lparr>Timestamp = 42, Topic = ''orders'', Partition = 0, Lag = 100, Offset = 0, EndOffset = 100\<rparr>
     = EndOffset \<lparr>Timestamp = 42, Topic = ''orders'', Partition = 0, Lag = 100, Offset = 0, EndOffset = 100\<rparr>"
proof -
  let ?s0 = "\<lparr>Timestamp = 42, Topic = ''orders'', Partition = 0, Lag = 100, Offset = 0, EndOffset = 100\<rparr>"
  let ?s1 = "\<lparr>Timestamp = 42, Topic = ''orders'', Partition = 1, Lag = 30, Offset = 20, EndOffset = 50\<rparr>"
  let ?s2 = "\<lparr>Timestamp = 42, Topic = ''orders'', Partition = 2, Lag = 0, Offset = 9, EndOffset = 7\<rparr>"
  let ?resp = "[''orders'' \<mapsto>
               [\<lparr>ofp_Partition = 0, CommittedOffset = - 1, ofp_Error = None\<rparr>,
                \<lparr>ofp_Partition = 1, CommittedOffset = 20, ofp_Error = None\<rparr>,
                \<lparr>ofp_Partition = 2, CommittedOffset = 9, ofp_Error = None\<rparr>]]"
  have e: "FetchLag example_fetcher 42 = Inr [?s0, ?s1, ?s2]"
    by (simp add: fetch_defs)
  have m0: "?s0 \<in> set [?s0, ?s1, ?s2]" and m2: "?s2 \<in> set [?s0, ?s1, ?s2]"
    by simp_all
  have dp: "discover_partitions example_fetcher = Inr [0, 1, 2]"
    by (simp add: fetch_defs)
  have fe: "offset_fetch example_fetcher [0, 1, 2] = Inr ?resp"
    by (simp add: fetch_defs)
  have ex: "\<exists>po\<in>set (entries ?resp (topic example_fetcher)). ofp_Partition po = Partition ?s0"
    by (simp add: fetch_defs)
  have al: "\<forall>po\<in>set (entries ?resp (topic example_fetcher)).
              ofp_Partition po = Partition ?s0 \<longrightarrow> CommittedOffset po = - 1"
    by (simp add: fetch_defs)
  from FetchLag_lag[OF e m2] have 2: "sint (Lag ?s2) = max 0 (sint (EndOffset ?s2) - sint (Offset ?s2))"
    by simp
  from FetchLag_lag[OF e m0] dp fe ex al
  have 0: "Offset ?s0 = (if sint (- 1 :: int64) < 0 then 0 else - 1) \<and>
           (sint (- 1 :: int64) < 0 \<and> 0 \<le> sint (EndOffset ?s0) \<longrightarrow> Lag ?s0 = EndOffset ?s0)"
    by blast
  from 0 have "Lag ?s0 = EndOffset ?s0" by simp
  with e 2 0 show ?thesis by simp
qed

subsection \<open>Configuration\<close>

lemma parse_lagThreshold_Inr:
  "parse_lagThreshold md env cfg = Inr cfg' \<longleftrightarrow>
     (case numeric_text md env ''lagThreshold'' ''LAG_THRESHOLD'' of
        None \<Rightarrow> cfg' = cfg
      | Some v \<Rightarrow> (\<exists>n. ParseInt v = Inr n \<and> cfg' = cfg\<lparr>LagThreshold := n\<rparr>))"
  by (auto simp: parse_lagThreshold_def numeric_text_def Let_def split: option.splits sum.splits)

lemma parse_sustainSeconds_Inr:
  "parse_sustainSeconds md env cfg = Inr cfg' \<longleftrightarrow>
     (case numeric_text md env ''sustainSeconds'' ''SUSTAIN_SECONDS'' of
        None \<Rightarrow> cfg' = cfg
      | Some v \<Rightarrow> (\<exists>n. ParseInt v = Inr n \<and> cfg' = cfg\<lparr>SustainDuration := n * Second\<rparr>))"
  by (auto simp: parse_sustainSeconds_def numeric_text_def Let_def split: option.splits sum.splits)

lemma parse_samplingInterval_Inr:
  "parse_samplingInterval md env cfg = Inr cfg' \<longleftrightarrow>
     (case numeric_text md env ''samplingInterval'' ''SAMPLING_INTERVAL'' of
        None \<Rightarrow> cfg' = cfg
      | Some v \<Rightarrow> (\<exists>n. ParseInt v = Inr n \<and> cfg' = cfg\<lparr>SamplingInterval := n * Second\<rparr>))"
  by (auto simp: parse_samplingInterval_def numeric_text_def Let_def split: option.splits sum.splits)

lemma parse_windowSize_Inr:
  "parse_windowSize md env cfg = Inr cfg' \<longleftrightarrow>
     (case numeric_text md env ''windowSize'' ''WINDOW_SIZE'' of
        None \<Rightarrow> cfg' = cfg
      | Some v \<Rightarrow> (\<exists>n. ParseInt v = Inr n \<and> cfg' = cfg\<lparr>WindowSize := n\<rparr>))"
  by (auto simp: parse_windowSize_def numeric_text_def Atoi_def Let_def split: option.splits sum.splits)

lemma parse_blocks_not_Errorf:
  "parse_lagThreshold md env cfg \<noteq> Inl (Errorf msg)"
  "parse_sustainSeconds md env cfg \<noteq> Inl (Errorf msg)"
  "parse_samplingInterval md env cfg \<noteq> Inl (Errorf msg)"
  "parse_windowSize md env cfg \<noteq> Inl (Errorf msg)"
  by (auto simp: parse_lagThreshold_def parse_sustainSeconds_def parse_samplingInterval_def
      parse_windowSize_def Let_def split: option.splits sum.splits)

lemma numeric_ok_iff:
  "numeric_ok md env key envKey \<longleftrightarrow>
     (case numeric_text md env key envKey of None \<Rightarrow> True | Some v \<Rightarrow> (\<exists>n. ParseInt v = Inr n))"
  by (auto simp: numeric_ok_def split: option.splits sum.splits)

lemma ParseFromMetadata_unfold:
  "ParseFromMetadata md env =
     (if cfg_Topic (string_options md env) = [] then Inl (Errorf ''topic is required'')
      else if ConsumerGroup (string_options md env) = [] then Inl (Errorf ''consumerGroup is required'')
      else
        (case parse_lagThreshold md env (string_options md env) of
           Inl err \<Rightarrow> Inl err
         | Inr cfg1 \<Rightarrow>
        (case parse_sustainSeconds md env cfg1 of
           Inl err \<Rightarrow> Inl err
         | Inr cfg2 \<Rightarrow>
        (case parse_samplingInterval md env cfg2 of
           Inl err \<Rightarrow> Inl err
         | Inr cfg3 \<Rightarrow> parse_windowSize md env cfg3))))"
  by (simp add: ParseFromMetadata_def string_options_def Let_def)

lemma ParseFromMetadata_Inr:
  "ParseFromMetadata md env = Inr cfg \<longleftrightarrow>
     cfg_Topic (string_options md env) \<noteq> [] \<and> ConsumerGroup (string_options md env) \<noteq> [] \<and>
     (\<exists>c1 c2 c3. parse_lagThreshold md env (string_options md env) = Inr c1 \<and>
                 parse_sustainSeconds md env c1 = Inr c2 \<and>
                 parse_samplingInterval md env c2 = Inr c3 \<and>
                 parse_windowSize md env c3 = Inr cfg)"
  unfolding ParseFromMetadata_unfold by (auto split: sum.splits)

lemma ParseFromMetadata_Errorf:
  "ParseFromMetadata md env = Inl (Errorf msg) \<longleftrightarrow>
     (cfg_Topic (string_options md env) = [] \<and> msg = ''topic is required'') \<or>
     (cfg_Topic (string_options md env) \<noteq> [] \<and> ConsumerGroup (string_options md env) = [] \<and>
      msg = ''consumerGroup is required'')"
  unfolding ParseFromMetadata_unfold
  using parse_blocks_not_Errorf[of md env _ msg]
  by (auto split: sum.splits)

lemma getMetadataOrEnv_eq:
  "getMetadataOrEnv md env key envKey dflt =
     (case lookup md key of
        Some v \<Rightarrow> if v \<noteq> [] then v else if Getenv env envKey \<noteq> [] then Getenv env envKey else dflt
      | None \<Rightarrow> if Getenv env envKey \<noteq> [] then Getenv env envKey else dflt)"
  by (auto simp: getMetadataOrEnv_def lookup_def Let_def split: option.splits)

lemmas config_defs = ParseFromMetadata_def getMetadataOrEnv_def Getenv_def lookup_def
  parse_lagThreshold_def parse_sustainSeconds_def parse_samplingInterval_def parse_windowSize_def
  ParseInt_def ParseUint_def Atoi_def maxUint64_def Second_def Let_def

text \<open>
  Claim C4 as stated fails: \<open>sustainSeconds = 0\<close> and \<open>samplingInterval = -5\<close> are accepted, and
  the configuration returned has a zero, respectively negative, duration.
\<close>

theorem ParseFromMetadata_nonpositive_counterexample:
  "ParseFromMetadata
     (Some [''topic'' \<mapsto> ''orders'', ''consumerGroup'' \<mapsto> ''workers'', ''sustainSeconds'' \<mapsto> ''0''])
     Map.empty
   = Inr \<lparr>BootstrapServers = ''localhost:9092'', cfg_Topic = ''orders'', ConsumerGroup = ''workers'',
          LagThreshold = 500, SustainDuration = 0, SamplingInterval = 10000000000, WindowSize = 30\<rparr> \<and>
   ParseFromMetadata
     (Some [''topic'' \<mapsto> ''orders'', ''consumerGroup'' \<mapsto> ''workers''])
     [''SAMPLING_INTERVAL'' \<mapsto> ''-5'']
   = Inr \<lparr>BootstrapServers = ''localhost:9092'', cfg_Topic = ''orders'', ConsumerGroup = ''workers'',
          LagThreshold = 500, SustainDuration = 120000000000, SamplingInterval = - 5000000000,
          WindowSize = 30\<rparr> \<and>
   sint (0 :: int64) \<le> 0 \<and> sint (- 5000000000 :: int64) \<le> 0"
  by (simp add: config_defs)

text \<open>
  Claim C4, as amended. \<open>ParseFromMetadata\<close> does not look at the sign of a duration. When
  it returns a configuration, the text given for \<open>sustainSeconds\<close> (and for
  \<open>samplingInterval\<close>) parsed as a decimal \<open>int64\<close> \<open>n\<close>, zero and negative values
  included, and the duration is \<open>n\<close> times one second (in \<open>int64\<close>); without a text it is
  the default. So construction fails for these options exactly when their text does not
  parse.
\<close>

theorem ParseFromMetadata_durations:
  assumes "ParseFromMetadata md env = Inr cfg"
  shows "(case numeric_text md env ''sustainSeconds'' ''SUSTAIN_SECONDS'' of
            None \<Rightarrow> SustainDuration cfg = 120 * Second
          | Some v \<Rightarrow> (\<exists>n. ParseInt v = Inr n \<and> SustainDuration cfg = n * Second)) \<and>
         (case numeric_text md env ''samplingInterval'' ''SAMPLING_INTERVAL'' of
            None \<Rightarrow> SamplingInterval cfg = 10 * Second
          | Some v \<Rightarrow> (\<exists>n. ParseInt v = Inr n \<and> SamplingInterval cfg = n * Second))"
proof -
  from assms obtain c1 c2 c3 where
    1: "parse_lagThreshold md env (string_options md env) = Inr c1"
    and 2: "parse_sustainSeconds md env c1 = Inr c2"
    and 3: "parse_samplingInterval md env c2 = Inr c3"
    and 4: "parse_windowSize md env c3 = Inr cfg"
    unfolding ParseFromMetadata_Inr by blast
  from 1 have c1: "SustainDuration c1 = 120 * Second" "SamplingInterval c1 = 10 * Second"
    unfolding parse_lagThreshold_Inr by (auto simp: string_options_def split: option.splits)
  from 4 have c4: "SustainDuration cfg = SustainDuration c3" "SamplingInterval cfg = SamplingInterval c3"
    unfolding parse_windowSize_Inr by (auto split: option.splits)
  from 3 have c3: "SustainDuration c3 = SustainDuration c2"
    unfolding parse_samplingInterval_Inr by (auto split: option.splits)
  from 2 have c2: "SamplingInterval c2 = SamplingInterval c1"
    unfolding parse_sustainSeconds_Inr by (auto split: option.splits)
  have s: "case numeric_text md env ''sustainSeconds'' ''SUSTAIN_SECONDS'' of
            None \<Rightarrow> SustainDuration cfg = 120 * Second
          | Some v \<Rightarrow> (\<exists>n. ParseInt v = Inr n \<and> SustainDuration cfg = n * Second)"
    using 2 c1(1) unfolding parse_sustainSeconds_Inr c4 c3 by (auto split: option.splits)
  have i: "case numeric_text md env ''samplingInterval'' ''SAMPLING_INTERVAL'' of
            None \<Rightarrow> SamplingInterval cfg = 10 * Second
          | Some v \<Rightarrow> (\<exists>n. ParseInt v = Inr n \<and> SamplingInterval cfg = n * Second)"
    using 3 c1(2) c2 unfolding parse_samplingInterval_Inr c4 by (auto split: option.splits)
  from s i show ?thesis ..
qed

theorem ParseFromMetadata_durations_witness:
  "ParseFromMetadata
     (Some [''topic'' \<mapsto> ''orders'', ''consumerGroup'' \<mapsto> ''workers'', ''sustainSeconds'' \<mapsto> ''0''])
     Map.empty
   = Inr \<lparr>BootstrapServers = ''localhost:9092'', cfg_Topic = ''orders'', ConsumerGroup = ''workers'',
          LagThreshold = 500, SustainDuration = 0, SamplingInterval = 10000000000, WindowSize = 30\<rparr> \<and>
   numeric_text (Some [''topic'' \<mapsto> ''orders'', ''consumerGroup'' \<mapsto> ''workers'', ''sustainSeconds'' \<mapsto> ''0''])
     Map.empty ''sustainSeconds'' ''SUSTAIN_SECONDS'' = Some ''0'' \<and>
   (\<exists>n. ParseInt ''0'' = Inr n \<and> (0 :: int64) = n * Second)"
proof -
  let ?md = "Some [''topic'' \<mapsto> ''orders'', ''consumerGroup'' \<mapsto> ''workers'', ''sustainSeconds'' \<mapsto> ''0'']"
  let ?cfg = "\<lparr>BootstrapServers = ''localhost:9092'', cfg_Topic = ''orders'', ConsumerGroup = ''workers'',
          LagThreshold = 500, SustainDuration = 0, SamplingInterval = 10000000000, WindowSize = 30\<rparr>"
  have e: "ParseFromMetadata ?md Map.empty = Inr ?cfg"
    by (simp add: config_defs)
  have t: "numeric_text ?md Map.empty ''sustainSeconds'' ''SUSTAIN_SECONDS'' = Some ''0''"
    by (simp add: numeric_text_def lookup_def)
  from ParseFromMetadata_durations[OF e] have "\<exists>n. ParseInt ''0'' = Inr n \<and> (0 :: int64) = n * Second"
    unfolding t by simp
  with e t show ?thesis by simp
qed

text \<open>
  Claim C5 as stated fails: with \<open>sustainSeconds = 1000\<close> and the defaults for the window
  (30 samples of 10 s, so \<open>W\<close> is 300 s) the configuration is returned.
\<close>

theorem ParseFromMetadata_sustain_beyond_window_counterexample:
  "ParseFromMetadata
     (Some [''topic'' \<mapsto> ''orders'', ''consumerGroup'' \<mapsto> ''workers'', ''sustainSeconds'' \<mapsto> ''1000''])
     Map.empty
   = Inr \<lparr>BootstrapServers = ''localhost:9092'', cfg_Topic = ''orders'', ConsumerGroup = ''workers'',
          LagThreshold = 500, SustainDuration = 1000000000000, SamplingInterval = 10000000000,
          WindowSize = 30\<rparr> \<and>
   \<not> sint (1000000000000 :: int64) \<le> sint (30 * 10000000000 :: int64)"
  by (simp add: config_defs)

text \<open>
  Claim C5, as amended. \<open>ParseFromMetadata\<close> returns a configuration exactly when topic and
  consumer group resolve to non-empty strings and each of the four numeric options that is
  given parses. It makes no comparison between \<open>sustainDuration\<close> and
  \<open>windowSize \<times> samplingInterval\<close>: a configuration with \<open>sustainDuration > W\<close> is returned.
\<close>

theorem ParseFromMetadata_accepts_iff:
  "(\<exists>cfg. ParseFromMetadata md env = Inr cfg) \<longleftrightarrow>
     getMetadataOrEnv md env ''topic'' ''KAFKA_TOPIC'' [] \<noteq> [] \<and>
     getMetadataOrEnv md env ''consumerGroup'' ''KAFKA_GROUP_ID'' [] \<noteq> [] \<and>
     numeric_ok md env ''lagThreshold'' ''LAG_THRESHOLD'' \<and>
     numeric_ok md env ''sustainSeconds'' ''SUSTAIN_SECONDS'' \<and>
     numeric_ok md env ''samplingInterval'' ''SAMPLING_INTERVAL'' \<and>
     numeric_ok md env ''windowSize'' ''WINDOW_SIZE''"
proof -
  have blocks: "(\<exists>c1 c2 c3 cfg. parse_lagThreshold md env c0 = Inr c1 \<and>
                 parse_sustainSeconds md env c1 = Inr c2 \<and>
                 parse_samplingInterval md env c2 = Inr c3 \<and>
                 parse_windowSize md env c3 = Inr cfg) \<longleftrightarrow>
     numeric_ok md env ''lagThreshold'' ''LAG_THRESHOLD'' \<and>
     numeric_ok md env ''sustainSeconds'' ''SUSTAIN_SECONDS'' \<and>
     numeric_ok md env ''samplingInterval'' ''SAMPLING_INTERVAL'' \<and>
     numeric_ok md env ''windowSize'' ''WINDOW_SIZE''" for c0
  proof -
    have 1: "(\<exists>c1. parse_lagThreshold md env c = Inr c1) \<longleftrightarrow> numeric_ok md env ''lagThreshold'' ''LAG_THRESHOLD''" for c
      unfolding parse_lagThreshold_Inr numeric_ok_iff by (auto split: option.splits)
    have 2: "(\<exists>c2. parse_sustainSeconds md env c = Inr c2) \<longleftrightarrow> numeric_ok md env ''sustainSeconds'' ''SUSTAIN_SECONDS''" for c
      unfolding parse_sustainSeconds_Inr numeric_ok_iff by (auto split: option.splits)
    have 3: "(\<exists>c3. parse_samplingInterval md env c = Inr c3) \<longleftrightarrow> numeric_ok md env ''samplingInterval'' ''SAMPLING_INTERVAL''" for c
      unfolding parse_samplingInterval_Inr numeric_ok_iff by (auto split: option.splits)
    have 4: "(\<exists>c4. parse_windowSize md env c = Inr c4) \<longleftrightarrow> numeric_ok md env ''windowSize'' ''WINDOW_SIZE''" for c
      unfolding parse_windowSize_Inr numeric_ok_iff by (auto split: option.splits)
    show ?thesis
    proof
      assume "\<exists>c1 c2 c3 cfg. parse_lagThreshold md env c0 = Inr c1 \<and>
                 parse_sustainSeconds md env c1 = Inr c2 \<and>
                 parse_samplingInterval md env c2 = Inr c3 \<and>
                 parse_windowSize md env c3 = Inr cfg"
      then obtain c1 c2 c3 cfg where "parse_lagThreshold md env c0 = Inr c1"
        "parse_sustainSeconds md env c1 = Inr c2" "parse_samplingInterval md env c2 = Inr c3"
        "parse_windowSize md env c3 = Inr cfg" by blast
      then show "numeric_ok md env ''lagThreshold'' ''LAG_THRESHOLD'' \<and>
        numeric_ok md env ''sustainSeconds'' ''SUSTAIN_SECONDS'' \<and>
        numeric_ok md env ''samplingInterval'' ''SAMPLING_INTERVAL'' \<and>
        numeric_ok md env ''windowSize'' ''WINDOW_SIZE''"
        using 1[of c0] 2[of c1] 3[of c2] 4[of c3] by blast
    next
      assume ok: "numeric_ok md env ''lagThreshold'' ''LAG_THRESHOLD'' \<and>
        numeric_ok md env ''sustainSeconds'' ''SUSTAIN_SECONDS'' \<and>
        numeric_ok md env ''samplingInterval'' ''SAMPLING_INTERVAL'' \<and>
        numeric_ok md env ''windowSize'' ''WINDOW_SIZE''"
      from ok 1[of c0] obtain c1 where c1: "parse_lagThreshold md env c0 = Inr c1" by blast
      from ok 2[of c1] obtain c2 where c2: "parse_sustainSeconds md env c1 = Inr c2" by blast
      from ok 3[of c2] obtain c3 where c3: "parse_samplingInterval md env c2 = Inr c3" by blast
      from ok 4[of c3] obtain c4 where c4: "parse_windowSize md env c3 = Inr c4" by blast
      from c1 c2 c3 c4 show "\<exists>c1 c2 c3 cfg. parse_lagThreshold md env c0 = Inr c1 \<and>
                 parse_sustainSeconds md env c1 = Inr c2 \<and>
                 parse_samplingInterval md env c2 = Inr c3 \<and>
                 parse_windowSize md env c3 = Inr cfg" by blast
    qed
  qed
  have "(\<exists>cfg. ParseFromMetadata md env = Inr cfg) \<longleftrightarrow>
     cfg_Topic (string_options md env) \<noteq> [] \<and> ConsumerGroup (string_options md env) \<noteq> [] \<and>
     (\<exists>c1 c2 c3 cfg. parse_lagThreshold md env (string_options md env) = Inr c1 \<and>
                 parse_sustainSeconds md env c1 = Inr c2 \<and>
                 parse_samplingInterval md env c2 = Inr c3 \<and>
                 parse_windowSize md env c3 = Inr cfg)"
    unfolding ParseFromMetadata_Inr by blast
  then show ?thesis
    unfolding blocks by (simp add: string_options_def)
qed

theorem ParseFromMetadata_accepts_iff_witness:
  "(\<exists>cfg. ParseFromMetadata
     (Some [''topic'' \<mapsto> ''orders'', ''consumerGroup'' \<mapsto> ''workers'', ''sustainSeconds'' \<mapsto> ''1000''])
     Map.empty = Inr cfg) \<and>
   numeric_ok (Some [''topic'' \<mapsto> ''orders'', ''consumerGroup'' \<mapsto> ''workers'', ''sustainSeconds'' \<mapsto> ''1000''])
     Map.empty ''sustainSeconds'' ''SUSTAIN_SECONDS''"
proof -
  let ?md = "Some [''topic'' \<mapsto> ''orders'', ''consumerGroup'' \<mapsto> ''workers'', ''sustainSeconds'' \<mapsto> ''1000'']"
  have "ParseFromMetadata ?md Map.empty
     = Inr \<lparr>BootstrapServers = ''localhost:9092'', cfg_Topic = ''orders'', ConsumerGroup = ''workers'',
          LagThreshold = 500, SustainDuration = 1000000000000, SamplingInterval = 10000000000,
          WindowSize = 30\<rparr>"
    by (simp add: config_defs)
  then have e: "\<exists>cfg. ParseFromMetadata ?md Map.empty = Inr cfg" by blast
  with ParseFromMetadata_accepts_iff[of ?md Map.empty] show ?thesis by blast
qed

text \<open>
  Claim C10. In \<open>getMetadataOrEnv\<close> a metadata entry that is present but empty counts as
  absent: the result is that for no metadata at all, the environment variable when it is
  not empty and the default otherwise (\<open>os.Getenv\<close> gives the empty string for a variable
  that is not set, so a variable set to the empty string counts as missing too). So
  \<open>ParseFromMetadata\<close> returns \<open>topic is required\<close> exactly when the metadata has no non-empty
  \<open>topic\<close> and \<open>KAFKA_TOPIC\<close> is missing, and \<open>consumerGroup is required\<close> exactly when the
  topic is resolved, the metadata has no non-empty \<open>consumerGroup\<close> and \<open>KAFKA_GROUP_ID\<close> is
  missing.
\<close>

theorem ParseFromMetadata_required:
  "(lookup md key = Some [] \<longrightarrow>
      getMetadataOrEnv md env key envKey dflt = getMetadataOrEnv None env key envKey dflt) \<and>
   (nonempty_value md key \<longrightarrow> lookup md key = Some (getMetadataOrEnv md env key envKey dflt)) \<and>
   (\<not> nonempty_value md key \<longrightarrow>
      getMetadataOrEnv md env key envKey dflt =
        (if Getenv env envKey \<noteq> [] then Getenv env envKey else dflt)) \<and>
   (Getenv env envKey = [] \<longleftrightarrow> env envKey = None \<or> env envKey = Some []) \<and>
   (ParseFromMetadata md env = Inl (Errorf ''topic is required'') \<longleftrightarrow>
      \<not> nonempty_value md ''topic'' \<and> Getenv env ''KAFKA_TOPIC'' = []) \<and>
   (ParseFromMetadata md env = Inl (Errorf ''consumerGroup is required'') \<longleftrightarrow>
      (nonempty_value md ''topic'' \<or> Getenv env ''KAFKA_TOPIC'' \<noteq> []) \<and>
      \<not> nonempty_value md ''consumerGroup'' \<and> Getenv env ''KAFKA_GROUP_ID'' = [])"
proof -
  have r: "getMetadataOrEnv md env k ek [] = [] \<longleftrightarrow> \<not> nonempty_value md k \<and> Getenv env ek = []" for k ek
    by (auto simp: getMetadataOrEnv_eq nonempty_value_def split: option.splits)
  have 1: "lookup md key = Some [] \<longrightarrow>
      getMetadataOrEnv md env key envKey dflt = getMetadataOrEnv None env key envKey dflt"
    by (simp add: getMetadataOrEnv_eq) (simp add: lookup_def)
  have 2: "nonempty_value md key \<longrightarrow> lookup md key = Some (getMetadataOrEnv md env key envKey dflt)"
    by (auto simp: getMetadataOrEnv_eq nonempty_value_def split: option.splits)
  have 3: "\<not> nonempty_value md key \<longrightarrow>
      getMetadataOrEnv md env key envKey dflt =
        (if Getenv env envKey \<noteq> [] then Getenv env envKey else dflt)"
    by (auto simp: getMetadataOrEnv_eq nonempty_value_def split: option.splits)
  have 4: "Getenv env envKey = [] \<longleftrightarrow> env envKey = None \<or> env envKey = Some []"
    by (auto simp: Getenv_def split: option.splits)
  have 5: "ParseFromMetadata md env = Inl (Errorf ''topic is required'') \<longleftrightarrow>
      \<not> nonempty_value md ''topic'' \<and> Getenv env ''KAFKA_TOPIC'' = []"
    unfolding ParseFromMetadata_Errorf using r[of "''topic''" "''KAFKA_TOPIC''"]
    by (simp add: string_options_def)
  have 6: "ParseFromMetadata md env = Inl (Errorf ''consumerGroup is required'') \<longleftrightarrow>
      (nonempty_value md ''topic'' \<or> Getenv env ''KAFKA_TOPIC'' \<noteq> []) \<and>
      \<not> nonempty_value md ''consumerGroup'' \<and> Getenv env ''KAFKA_GROUP_ID'' = []"
    unfolding ParseFromMetadata_Errorf
    using r[of "''topic''" "''KAFKA_TOPIC''"] r[of "''consumerGroup''" "''KAFKA_GROUP_ID''"]
    by (simp add: string_options_def)
  from 1 2 3 4 5 6 show ?thesis by (intro conjI)
qed

theorem ParseFromMetadata_required_witness:
  "lookup (Some [''topic'' \<mapsto> [], ''consumerGroup'' \<mapsto> ''workers'']) ''topic'' = Some [] \<and>
   getMetadataOrEnv (Some [''topic'' \<mapsto> [], ''consumerGroup'' \<mapsto> ''workers''])
      [''KAFKA_TOPIC'' \<mapsto> ''orders''] ''topic'' ''KAFKA_TOPIC'' [] = ''orders'' \<and>
   getMetadataOrEnv None [''KAFKA_TOPIC'' \<mapsto> ''orders''] ''topic'' ''KAFKA_TOPIC'' [] = ''orders'' \<and>
   \<not> nonempty_value (Some [''topic'' \<mapsto> [], ''consumerGroup'' \<mapsto> ''workers'']) ''topic'' \<and>
   ParseFromMetadata (Some [''topic'' \<mapsto> [], ''consumerGroup'' \<mapsto> ''workers'']) Map.empty
     = Inl (Errorf ''topic is required'') \<and>
   nonempty_value (Some [''topic'' \<mapsto> ''orders'', ''consumerGroup'' \<mapsto> []]) ''topic'' \<and>
   ParseFromMetadata (Some [''topic'' \<mapsto> ''orders'', ''consumerGroup'' \<mapsto> []]) Map.empty
     = Inl (Errorf ''consumerGroup is required'')"
proof -
  let ?md = "Some [''topic'' \<mapsto> [], ''consumerGroup'' \<mapsto> ''workers'']"
  let ?md' = "Some [''topic'' \<mapsto> ''orders'', ''consumerGroup'' \<mapsto> []]"
  let ?env = "[''KAFKA_TOPIC'' \<mapsto> ''orders'']"
  have l: "lookup ?md ''topic'' = Some []" by (simp add: lookup_def)
  have n: "getMetadataOrEnv None ?env ''topic'' ''KAFKA_TOPIC'' [] = ''orders''"
    by (simp add: getMetadataOrEnv_def Getenv_def)
  have ne: "\<not> nonempty_value ?md ''topic''" "\<not> nonempty_value ?md' ''consumerGroup''"
    "nonempty_value ?md' ''topic''"
    by (simp_all add: nonempty_value_def lookup_def)
  have g: "Getenv Map.empty ''KAFKA_TOPIC'' = []" "Getenv Map.empty ''KAFKA_GROUP_ID'' = []"
    by (simp_all add: Getenv_def)
  from ParseFromMetadata_required[of ?md "''topic''" ?env "''KAFKA_TOPIC''" "[]"] l n
  have a: "getMetadataOrEnv ?md ?env ''topic'' ''KAFKA_TOPIC'' [] = ''orders''" by simp
  from ParseFromMetadata_required[of ?md "''topic''" Map.empty "''KAFKA_TOPIC''" "[]"] ne g
  have b: "ParseFromMetadata ?md Map.empty = Inl (Errorf ''topic is required'')" by blast
  from ParseFromMetadata_required[of ?md' "''topic''" Map.empty "''KAFKA_TOPIC''" "[]"] ne g
  have c: "ParseFromMetadata ?md' Map.empty = Inl (Errorf ''consumerGroup is required'')" by blast
  from l a n ne b c show ?thesis by (intro conjI)
qed

end
